theory Spec2Isabelle
  imports Main "HOL-Library.Char_ord" "HOL-Library.List_Lexorder"
begin

section \<open>The print-monitoring agent (agente.py)\<close>

text \<open>
  A shallow embedding of \<^verbatim>\<open>Monitoramento1/agent/agente.py\<close>: the class
  \<^verbatim>\<open>PrintMonitor\<close> with its identity encoding, the extraction of a canonical record
  from a raw event, the sender with its retries, the persisted set of processed
  identities, the catch-up pass and the steady polling loop.

  Python strings are lists of code points; a HOL \<^typ>\<open>char\<close> stands for a code point below
  256, so the accented letters of the Portuguese patterns are single characters
  (\<^verbatim>\<open>CHR 0xE1\<close> is a-acute). Python integers are \<^typ>\<open>int\<close>.
\<close>

subsection \<open>Strings and integers of the host language\<close>

definition digit_char :: "nat \<Rightarrow> char" where
  "digit_char d = char_of (48 + d)"

text \<open>\<^verbatim>\<open>str(n)\<close> for a natural number: its decimal digits, no leading zero.\<close>

fun str_of_nat :: "nat \<Rightarrow> string" where
  "str_of_nat n =
     (if n < 10 then [digit_char n] else str_of_nat (n div 10) @ [digit_char (n mod 10)])"

declare str_of_nat.simps [simp del]

text \<open>\<^verbatim>\<open>str(i)\<close>, as an f-string formats an integer.\<close>

definition str_of_int :: "int \<Rightarrow> string" where
  "str_of_int i = (if i < 0 then CHR ''-'' # str_of_nat (nat (- i)) else str_of_nat (nat i))"

definition is_digit :: "char \<Rightarrow> bool" where
  "is_digit c = (48 \<le> (of_char c :: nat) \<and> (of_char c :: nat) \<le> 57)"

definition digit_val :: "char \<Rightarrow> nat" where
  "digit_val c = of_char c - 48"

definition nat_of_digits :: "string \<Rightarrow> nat" where
  "nat_of_digits s = foldl (\<lambda>acc c. 10 * acc + digit_val c) 0 s"

text \<open>
  The character classes of \<^verbatim>\<open>re\<close> and \<^verbatim>\<open>str\<close> on code points below 256:
  \<^verbatim>\<open>str.isspace\<close> (also \<^verbatim>\<open>\s\<close> and \<^verbatim>\<open>strip()\<close>), the word characters of
  \<^verbatim>\<open>\b\<close>, and the case folding of \<^verbatim>\<open>re.IGNORECASE\<close>.
\<close>

definition py_isspace :: "char \<Rightarrow> bool" where
  "py_isspace c = ((of_char c :: nat) \<in> {9, 10, 11, 12, 13, 28, 29, 30, 31, 32, 133, 160})"

definition py_isword :: "char \<Rightarrow> bool" where
  "py_isword c = (let n = (of_char c :: nat) in
     (48 \<le> n \<and> n \<le> 57) \<or> (65 \<le> n \<and> n \<le> 90) \<or> n = 95 \<or> (97 \<le> n \<and> n \<le> 122)
     \<or> n \<in> {170, 178, 179, 181, 185, 186, 188, 189, 190}
     \<or> (192 \<le> n \<and> n \<le> 214) \<or> (216 \<le> n \<and> n \<le> 246) \<or> 248 \<le> n)"

definition py_lower :: "char \<Rightarrow> char" where
  "py_lower c = (let n = (of_char c :: nat) in
     if (65 \<le> n \<and> n \<le> 90) \<or> (192 \<le> n \<and> n \<le> 214) \<or> (216 \<le> n \<and> n \<le> 222)
     then char_of (n + 32) else c)"

definition py_strip :: "string \<Rightarrow> string" where
  "py_strip s = rev (dropWhile py_isspace (rev (dropWhile py_isspace s)))"

text \<open>\<^verbatim>\<open>sub in s\<close> and \<^verbatim>\<open>s.startswith(p)\<close>.\<close>

fun contem :: "string \<Rightarrow> string \<Rightarrow> bool" where
  "contem [] sub = (sub = [])"
| "contem (c # cs) sub = (take (length sub) (c # cs) = sub \<or> contem cs sub)"

definition startswith :: "string \<Rightarrow> string \<Rightarrow> bool" where
  "startswith s p = (take (length p) s = p)"

text \<open>
  \<^verbatim>\<open>s.split('_', 1)\<close>: the text before the first underscore and the text after it;
  \<open>None\<close> when there is no underscore (the list then has one element, and the
  source never indexes it).
\<close>

definition split_1 :: "string \<Rightarrow> (string \<times> string) option" where
  "split_1 s =
     (if CHR ''_'' \<in> set s
      then Some (takeWhile (\<lambda>c. c \<noteq> CHR ''_'') s, tl (dropWhile (\<lambda>c. c \<noteq> CHR ''_'') s))
      else None)"

text \<open>The exceptions the model tells apart.\<close>

datatype erro = ValueError | TypeError

text \<open>
  \<^verbatim>\<open>int(s)\<close> on a string: surrounding white space is dropped, a sign may lead, and
  single underscores may stand between digits. \<open>None\<close> is the \<^verbatim>\<open>ValueError\<close>, which
  is also raised for a text of more than 4300 digits, whatever they are: the limit
  \<^verbatim>\<open>sys.int_info.default_max_str_digits\<close> of the interpreter, which the agent never
  changes. (The other direction, \<^verbatim>\<open>str\<close> of an integer, has the same limit; the
  sequence numbers that the agent formats were read from JSON under it.)
\<close>

definition int_max_str_digits :: nat where
  "int_max_str_digits = 4300"

definition int_isspace :: "char \<Rightarrow> bool" where
  "int_isspace c = ((of_char c :: nat) \<in> {9, 10, 11, 12, 13, 32, 133, 160})"

fun int_digits :: "nat \<Rightarrow> string \<Rightarrow> nat option" where
  "int_digits acc [] = Some acc"
| "int_digits acc [c] = (if is_digit c then Some (10 * acc + digit_val c) else None)"
| "int_digits acc (c # d # cs) =
     (if \<not> is_digit c then None
      else if d = CHR ''_''
      then (case cs of [] \<Rightarrow> None
            | e # _ \<Rightarrow> if is_digit e then int_digits (10 * acc + digit_val c) cs else None)
      else int_digits (10 * acc + digit_val c) (d # cs))"

definition py_int :: "string \<Rightarrow> int option" where
  "py_int s =
     (let t = rev (dropWhile int_isspace (rev (dropWhile int_isspace s)))
      in if int_max_str_digits < length (filter is_digit t) then None
         else (case t of
            [] \<Rightarrow> None
          | c # cs \<Rightarrow>
              if c = CHR ''-''
              then (if cs = [] then None else map_option (\<lambda>n. - int n) (int_digits 0 cs))
              else if c = CHR ''+''
              then (if cs = [] then None else map_option int (int_digits 0 cs))
              else map_option int (int_digits 0 (c # cs))))"

subsection \<open>Identity of an event\<close>

text \<open>
  \<^verbatim>\<open>criar_id_unico(self, record_id, machine_name=None)\<close>. The first argument is
  \<^verbatim>\<open>self.machine_name\<close>; \<open>None\<close> is the omitted argument. \<^verbatim>\<open>not machine_name\<close> holds
  for \<^verbatim>\<open>None\<close> and for the empty string.
\<close>

definition criar_id_unico :: "string \<Rightarrow> int \<Rightarrow> string option \<Rightarrow> string" where
  "criar_id_unico self_machine_name record_id machine_name =
     (let m = (case machine_name of
                 None \<Rightarrow> self_machine_name
               | Some h \<Rightarrow> if h = [] then self_machine_name else h)
      in m @ ''_'' @ str_of_int record_id)"

subsection \<open>Regular expressions of the extractor\<close>

text \<open>
  The patterns of \<^verbatim>\<open>extrair_dados_evento\<close> use literals, the classes \<^verbatim>\<open>\d\<close>,
  \<^verbatim>\<open>\s\<close> and \<^verbatim>\<open>.\<close> under \<^verbatim>\<open>*\<close>, \<^verbatim>\<open>+\<close> and \<^verbatim>\<open>+?\<close>, optional parts, alternatives,
  groups, \<^verbatim>\<open>\b\<close> and \<^verbatim>\<open>$\<close>. \<open>rx_match\<close> lists the ways a pattern matches at the
  head of the text in the order a backtracking matcher tries them (greedy: longest
  first; lazy: shortest first; alternatives left to right), so the head of the list is
  the match \<^verbatim>\<open>re\<close> reports. A state is the character before the position, the rest of
  the text and the groups closed so far.
\<close>

datatype cclass = Digit | Space | AnyChar

fun in_class :: "cclass \<Rightarrow> char \<Rightarrow> bool" where
  "in_class Digit c = is_digit c"
| "in_class Space c = py_isspace c"
| "in_class AnyChar c = (c \<noteq> CHR 0x0A)"

datatype rx =
    Lit string
  | Rep cclass
  | Rep1 cclass
  | Rep1Lazy cclass
  | Opt rx
  | Alt rx rx
  | Seq rx rx
  | Grp rx
  | WordB
  | Eol

type_synonym mstate = "char option \<times> string \<times> string list"

fun consume :: "nat \<Rightarrow> mstate \<Rightarrow> mstate" where
  "consume k (p, s, caps) =
     (if k = 0 then (p, s, caps) else (Some (s ! (k - 1)), drop k s, caps))"

definition same_text :: "bool \<Rightarrow> string \<Rightarrow> string \<Rightarrow> bool" where
  "same_text ic a b = (if ic then map py_lower a = map py_lower b else a = b)"

definition word_at :: "char option \<Rightarrow> bool" where
  "word_at c = (case c of None \<Rightarrow> False | Some x \<Rightarrow> py_isword x)"

fun rx_match :: "bool \<Rightarrow> rx \<Rightarrow> mstate \<Rightarrow> mstate list" where
  "rx_match ic (Lit l) (p, s, caps) =
     (if length l \<le> length s \<and> same_text ic (take (length l) s) l
      then [consume (length l) (p, s, caps)] else [])"
| "rx_match ic (Rep c) (p, s, caps) =
     map (\<lambda>k. consume k (p, s, caps)) (rev [0 ..< Suc (length (takeWhile (in_class c) s))])"
| "rx_match ic (Rep1 c) (p, s, caps) =
     map (\<lambda>k. consume k (p, s, caps)) (rev [1 ..< Suc (length (takeWhile (in_class c) s))])"
| "rx_match ic (Rep1Lazy c) (p, s, caps) =
     map (\<lambda>k. consume k (p, s, caps)) [1 ..< Suc (length (takeWhile (in_class c) s))]"
| "rx_match ic (Opt r) st = rx_match ic r st @ [st]"
| "rx_match ic (Alt a b) st = rx_match ic a st @ rx_match ic b st"
| "rx_match ic (Seq a b) st = concat (map (rx_match ic b) (rx_match ic a st))"
| "rx_match ic (Grp r) (p, s, caps) =
     map (\<lambda>(p', s', caps'). (p', s', caps' @ [take (length s - length s') s]))
       (rx_match ic r (p, s, caps))"
| "rx_match ic WordB (p, s, caps) =
     (if word_at p \<noteq> word_at (case s of [] \<Rightarrow> None | c # _ \<Rightarrow> Some c)
      then [(p, s, caps)] else [])"
| "rx_match ic Eol (p, s, caps) = (if s = [] \<or> s = [CHR 0x0A] then [(p, s, caps)] else [])"

text \<open>
  \<^verbatim>\<open>re.search\<close>: the first match at the leftmost position that has one; the result is
  the list of its groups. The flag is \<^verbatim>\<open>re.IGNORECASE\<close>.
\<close>

fun re_search_de :: "bool \<Rightarrow> rx \<Rightarrow> char option \<Rightarrow> string \<Rightarrow> string list option" where
  "re_search_de ic r p [] =
     (case rx_match ic r (p, [], []) of [] \<Rightarrow> None | (_, _, caps) # _ \<Rightarrow> Some caps)"
| "re_search_de ic r p (c # cs) =
     (case rx_match ic r (p, c # cs, []) of
        [] \<Rightarrow> re_search_de ic r (Some c) cs
      | (_, _, caps) # _ \<Rightarrow> Some caps)"

definition re_search :: "bool \<Rightarrow> rx \<Rightarrow> string \<Rightarrow> string list option" where
  "re_search ic r s = re_search_de ic r None s"

text \<open>
  A search followed by \<^verbatim>\<open>int(match.group(1))\<close>: \<open>None\<close> when the pattern has no
  match, otherwise what \<^verbatim>\<open>int\<close> makes of the first group, its value or the
  \<^verbatim>\<open>ValueError\<close> it raises.
\<close>

definition busca_int :: "bool \<Rightarrow> rx \<Rightarrow> string \<Rightarrow> (erro + int) option" where
  "busca_int ic r s =
     (case re_search ic r s of
        None \<Rightarrow> None
      | Some caps \<Rightarrow>
          (case caps of
             [] \<Rightarrow> None
           | g # _ \<Rightarrow> (case py_int g of None \<Rightarrow> Some (Inl ValueError) | Some v \<Rightarrow> Some (Inr v))))"

definition seqs :: "rx list \<Rightarrow> rx" where
  "seqs rs = foldr Seq rs (Lit [])"

definition paginas_lit :: string where
  "paginas_lit = ''P'' @ [CHR 0xE1] @ ''ginas impressas:''"

definition pagina_lit :: string where
  "pagina_lit = ''p'' @ [CHR 0xE1] @ ''gina''"

text \<open>The Portuguese patterns, in the order of the source.\<close>

definition rx_pt_documento :: rx where
  "rx_pt_documento = seqs [Lit ''O documento '', Rep1 Digit, Lit '', '', Grp (Rep1Lazy AnyChar),
     Lit '' pertencente a '', Grp (Rep1Lazy AnyChar), Lit '' em'']"

definition rx_pt_impressora :: rx where
  "rx_pt_impressora = seqs [Lit ''foi impresso em '', Grp (Rep1Lazy AnyChar),
     Alt (Seq (Rep1 Space) (Lit ''pela porta''))
       (Alt (Seq (Rep1 Space) (Lit (''atrav'' @ [CHR 0xE9] @ ''s''))) (Alt (Lit ''.'') Eol))]"

definition rx_pt1 :: rx where
  "rx_pt1 = seqs [Lit paginas_lit, Rep Space, Grp (Rep1 Digit)]"

definition rx_pt2 :: rx where
  "rx_pt2 = seqs [Lit (''Total de p'' @ [CHR 0xE1] @ ''ginas impressas:''), Rep Space,
     Grp (Rep1 Digit)]"

definition rx_pt3 :: rx where
  "rx_pt3 = seqs [Grp (Rep1 Digit), Rep1 Space, Lit pagina_lit, Opt (Lit ''s''), WordB]"

text \<open>The patterns of the other branch (English).\<close>

definition rx_en_documento :: rx where
  "rx_en_documento = seqs [Lit ''Document '', Rep1 Digit, Lit '', '', Grp (Rep1Lazy AnyChar),
     Lit '' owned by '', Grp (Rep1Lazy AnyChar), Lit '' on'']"

definition rx_en_impressora :: rx where
  "rx_en_impressora = seqs [Lit ''was printed on '', Grp (Rep1Lazy AnyChar),
     Alt (Seq (Rep1 Space) (Lit ''through''))
       (Alt (Seq (Rep1 Space) (Lit ''via'')) (Alt (Lit ''.'') Eol))]"

definition rx_en1 :: rx where
  "rx_en1 = seqs [Lit ''Pages printed:'', Rep Space, Grp (Rep1 Digit)]"

definition rx_en2 :: rx where
  "rx_en2 = seqs [Lit ''Total pages printed:'', Rep Space, Grp (Rep1 Digit)]"

definition rx_en3 :: rx where
  "rx_en3 = seqs [Grp (Rep1 Digit), Rep1 Space, Lit ''page'', Opt (Lit ''s''), WordB]"

definition rx_4 :: rx where
  "rx_4 = seqs [Alt (Lit ''Size in bytes:'') (Lit ''Tamanho em bytes:''), Rep Space, Rep1 Digit,
     Lit ''.'', Rep Space, Opt (Alt (Lit ''Pages printed:'') (Lit paginas_lit)), Rep Space,
     Grp (Rep1 Digit)]"

text \<open>The generic patterns, all searched with \<^verbatim>\<open>re.IGNORECASE\<close>.\<close>

definition rx_paginas_ou_pages :: rx where
  "rx_paginas_ou_pages =
     Alt (Seq (Lit pagina_lit) (Opt (Lit ''s''))) (Seq (Lit ''page'') (Opt (Lit ''s'')))"

definition patterns :: "rx list" where
  "patterns =
     [seqs [rx_paginas_ou_pages, Rep Space, Lit '':'', Rep Space, Grp (Rep1 Digit)],
      seqs [Grp (Rep1 Digit), Rep Space, rx_paginas_ou_pages],
      seqs [Alt (Lit ''total'') (Lit ''Total''), Rep Space, Lit '':'', Rep Space, Grp (Rep1 Digit)],
      seqs [Alt (Seq (Lit ''impressa'') (Opt (Lit ''s''))) (Lit ''printed''), Rep Space, Lit '':'',
        Rep Space, Grp (Rep1 Digit)]]"

subsection \<open>Raw events and canonical records\<close>

text \<open>
  A raw event is one JSON object printed by the PowerShell script, which always writes
  the keys \<^verbatim>\<open>RecordId\<close>, \<^verbatim>\<open>TimeCreated\<close>, \<^verbatim>\<open>MachineName\<close> and \<^verbatim>\<open>Message\<close>; the
  defaults of \<^verbatim>\<open>.get\<close> for an absent key are therefore not part of the model. The
  message of an event may be JSON \<^verbatim>\<open>null\<close> (\<open>None\<close> here).
\<close>

record raw_evento =
  RecordId :: int
  TimeCreated :: string
  MachineName :: string
  Message :: "string option"

record evento =
  record_id :: int
  date :: string
  user :: string
  machine :: string
  pages :: int
  document :: string
  printer :: string

text \<open>What is sent to the server: the record without \<^verbatim>\<open>record_id\<close>.\<close>

record carga =
  c_date :: string
  c_user :: string
  c_machine :: string
  c_pages :: int
  c_document :: string
  c_printer :: string

definition sem_record_id :: "evento \<Rightarrow> carga" where
  "sem_record_id e = \<lparr>c_date = date e, c_user = user e, c_machine = machine e,
     c_pages = pages e, c_document = document e, c_printer = printer e\<rparr>"

subsection \<open>Extraction (extrair\_dados\_evento)\<close>

definition extrai_documento :: "rx \<Rightarrow> string \<Rightarrow> evento \<Rightarrow> evento" where
  "extrai_documento r mensagem dados =
     (case re_search False r mensagem of
        Some (d # u # _) \<Rightarrow> dados\<lparr>document := py_strip d, user := py_strip u\<rparr>
      | _ \<Rightarrow> dados)"

definition extrai_impressora :: "rx \<Rightarrow> string \<Rightarrow> evento \<Rightarrow> evento" where
  "extrai_impressora r mensagem dados =
     (case re_search False r mensagem of
        Some (p # _) \<Rightarrow> dados\<lparr>printer := py_strip p\<rparr>
      | _ \<Rightarrow> dados)"

text \<open>
  One page pattern of a language branch: tried only while \<^verbatim>\<open>pages_found\<close> is false;
  a match stores its number, whatever it is, and sets the flag. When \<^verbatim>\<open>int\<close> raises,
  the exception leaves the branch (\<open>Inl\<close>).
\<close>

definition tenta_paginas ::
  "bool \<Rightarrow> rx \<Rightarrow> string \<Rightarrow> evento \<times> bool \<Rightarrow> erro + evento \<times> bool" where
  "tenta_paginas ic r mensagem st =
     (case st of (dados, pages_found) \<Rightarrow>
        if \<not> pages_found
        then (case busca_int ic r mensagem of
                None \<Rightarrow> Inr (dados, pages_found)
              | Some (Inl e) \<Rightarrow> Inl e
              | Some (Inr v) \<Rightarrow> Inr (dados\<lparr>pages := v\<rparr>, True))
        else Inr (dados, pages_found))"

text \<open>Sequencing of statements that may raise: the first exception ends the sequence.\<close>

definition entao :: "erro + 'a \<Rightarrow> ('a \<Rightarrow> erro + 'b) \<Rightarrow> erro + 'b" where
  "entao x f = (case x of Inl e \<Rightarrow> Inl e | Inr v \<Rightarrow> f v)"

definition ramo_portugues :: "string \<Rightarrow> evento \<Rightarrow> erro + evento" where
  "ramo_portugues mensagem dados =
     (let dados = extrai_documento rx_pt_documento mensagem dados;
          dados = extrai_impressora rx_pt_impressora mensagem dados
      in entao (tenta_paginas False rx_pt1 mensagem (dados, False)) (\<lambda>st.
         entao (tenta_paginas False rx_pt2 mensagem st) (\<lambda>st.
         entao (tenta_paginas True rx_pt3 mensagem st) (\<lambda>st.
         Inr (fst st)))))"

definition ramo_ingles :: "string \<Rightarrow> evento \<Rightarrow> erro + evento" where
  "ramo_ingles mensagem dados =
     (let dados = extrai_documento rx_en_documento mensagem dados;
          dados = extrai_impressora rx_en_impressora mensagem dados
      in entao (tenta_paginas False rx_en1 mensagem (dados, False)) (\<lambda>st.
         entao (tenta_paginas False rx_en2 mensagem st) (\<lambda>st.
         entao (tenta_paginas True rx_en3 mensagem st) (\<lambda>st.
         entao (tenta_paginas False rx_4 mensagem st) (\<lambda>st.
         Inr (fst st))))))"

text \<open>
  The loop over the generic patterns: the first pattern whose match is a number in
  \<open>[1, 10000]\<close> gives the result; a pattern with no match or with a number out of
  range is passed over; a match that \<^verbatim>\<open>int\<close> refuses raises.
\<close>

fun busca_generica :: "rx list \<Rightarrow> string \<Rightarrow> erro + int option" where
  "busca_generica [] mensagem = Inr None"
| "busca_generica (pattern # rest) mensagem =
     (case busca_int True pattern mensagem of
        None \<Rightarrow> busca_generica rest mensagem
      | Some (Inl e) \<Rightarrow> Inl e
      | Some (Inr v) \<Rightarrow>
          if 1 \<le> v \<and> v \<le> 10000 then Inr (Some v) else busca_generica rest mensagem)"

definition eh_portugues :: "string \<Rightarrow> bool" where
  "eh_portugues mensagem = (contem mensagem ''pertencente a'' \<or> contem mensagem ''foi impresso'')"

text \<open>
  \<^verbatim>\<open>extrair_dados_evento\<close>. The result \<open>None\<close> is the \<^verbatim>\<open>except\<close> branch, which
  catches every exception of the body: a message that is \<^verbatim>\<open>null\<close> raises at
  \<^verbatim>\<open>mensagem[:200]\<close>, and a matched run of digits raises at \<^verbatim>\<open>int\<close> when it is
  longer than the interpreter allows.
\<close>

definition extrair_dados_evento :: "raw_evento \<Rightarrow> evento option" where
  "extrair_dados_evento evento_raw =
     (case Message evento_raw of
        None \<Rightarrow> None
      | Some mensagem \<Rightarrow>
          (let dados = \<lparr>record_id = RecordId evento_raw, date = TimeCreated evento_raw,
                        user = ''Desconhecido'', machine = MachineName evento_raw, pages = 1,
                        document = ''Documento'', printer = ''Impressora''\<rparr>
           in case entao (if eh_portugues mensagem then ramo_portugues mensagem dados
                          else ramo_ingles mensagem dados)
                     (\<lambda>dados.
                        if pages dados = 1
                        then (case busca_generica patterns mensagem of
                                Inl e \<Rightarrow> Inl e
                              | Inr None \<Rightarrow> Inr dados
                              | Inr (Some v) \<Rightarrow> Inr (dados\<lparr>pages := v\<rparr>))
                        else Inr dados) of
                Inl e \<Rightarrow> None
              | Inr dados \<Rightarrow>
                  Some (if pages dados < 1 \<or> pages dados > 10000 then dados\<lparr>pages := 1\<rparr>
                        else dados)))"

text \<open>
  The page patterns a language branch tries, in its order, and the first of them that
  matches, with what \<^verbatim>\<open>int\<close> makes of its number.
\<close>

definition padroes_do_ramo :: "string \<Rightarrow> (bool \<times> rx) list" where
  "padroes_do_ramo mensagem =
     (if eh_portugues mensagem then [(False, rx_pt1), (False, rx_pt2), (True, rx_pt3)]
      else [(False, rx_en1), (False, rx_en2), (True, rx_en3), (False, rx_4)])"

fun primeiro_casamento :: "(bool \<times> rx) list \<Rightarrow> string \<Rightarrow> (erro + int) option" where
  "primeiro_casamento [] mensagem = None"
| "primeiro_casamento ((ic, r) # rest) mensagem =
     (case busca_int ic r mensagem of
        None \<Rightarrow> primeiro_casamento rest mensagem
      | Some x \<Rightarrow> Some x)"

text \<open>
  A pattern that the generic loop passes over: it has no match in the message, or its
  number lies outside \<open>[1, 10000]\<close>.
\<close>

definition sem_valor :: "rx \<Rightarrow> string \<Rightarrow> bool" where
  "sem_valor r mensagem =
     (case busca_int True r mensagem of
        None \<Rightarrow> True
      | Some (Inl e) \<Rightarrow> False
      | Some (Inr v) \<Rightarrow> v < 1 \<or> 10000 < v)"

text \<open>
  The page count as the specification words it: the patterns (a) to (e) in order, the
  first one that yields a number in \<open>[1, 10000]\<close> wins, and 1 when none does.
\<close>

fun primeiro_na_faixa :: "(bool \<times> rx) list \<Rightarrow> string \<Rightarrow> int option" where
  "primeiro_na_faixa [] mensagem = None"
| "primeiro_na_faixa ((ic, r) # rest) mensagem =
     (case busca_int ic r mensagem of
        Some (Inr v) \<Rightarrow> if 1 \<le> v \<and> v \<le> 10000 then Some v else primeiro_na_faixa rest mensagem
      | _ \<Rightarrow> primeiro_na_faixa rest mensagem)"

definition paginas_spec :: "string \<Rightarrow> int" where
  "paginas_spec mensagem =
     (case primeiro_na_faixa
             ((if eh_portugues mensagem
               then [(False, rx_pt1), (False, rx_pt2), (True, rx_pt3), (False, rx_4)]
               else [(False, rx_en1), (False, rx_en2), (True, rx_en3), (False, rx_4)])
              @ map (\<lambda>r. (True, r)) patterns) mensagem of
        Some v \<Rightarrow> v
      | None \<Rightarrow> 1)"


text \<open>
  Two notions for reasoning about the page patterns: a pattern all of whose groups are
  \<^verbatim>\<open>(\d+)\<close>, and groups that are non-empty runs of digits no longer than a text.
\<close>

fun so_grupos_de_digitos :: "rx \<Rightarrow> bool" where
  "so_grupos_de_digitos (Opt r) = so_grupos_de_digitos r"
| "so_grupos_de_digitos (Alt a b) = (so_grupos_de_digitos a \<and> so_grupos_de_digitos b)"
| "so_grupos_de_digitos (Seq a b) = (so_grupos_de_digitos a \<and> so_grupos_de_digitos b)"
| "so_grupos_de_digitos (Grp r) = (r = Rep1 Digit)"
| "so_grupos_de_digitos _ = True"

definition grupos_ok :: "string \<Rightarrow> string list \<Rightarrow> bool" where
  "grupos_ok s gs = (\<forall>g\<in>set gs. g \<noteq> [] \<and> list_all is_digit g \<and> length g \<le> length s)"


subsection \<open>The monitor and its surroundings\<close>

text \<open>
  The attributes of \<^verbatim>\<open>PrintMonitor\<close> that the delivery logic reads or writes, and with
  them the part of the world it acts on: the identities in \<^verbatim>\<open>processed_events.json\<close>
  (\<open>None\<close>: no readable file), the number of HTTP requests made so far, and the
  history of requests and pauses. The write of the state file is taken to succeed (the
  \<^verbatim>\<open>except\<close> branch of \<^verbatim>\<open>salvar_eventos_processados\<close> only logs a failure of the file
  system). The pauses of the polling loop itself (\<^verbatim>\<open>check_interval\<close>,
  \<^verbatim>\<open>retry_interval\<close>) are left out.

  The server and the network are a function \<open>http\<close> from the number of a request to its
  outcome: a status code together with whether the body decodes as a JSON object
  (\<^verbatim>\<open>response.json()\<close> and \<^verbatim>\<open>result.get\<close> raise otherwise), or one of the exceptions
  that \<^verbatim>\<open>send_events\<close> catches.
\<close>

datatype resposta = Status int bool | ConnectionError | Timeout | OutraExcecao

datatype acao = Post "carga list" resposta | Sleep nat

datatype pid = PidInt int | PidStr string

record monitor =
  max_retries :: int
  batch_size :: int
  process_all_on_start :: bool
  machine_name :: string
  eventos_processados :: "string set"
  highest_record_id :: int
  arquivo :: "pid set option"
  n_posts :: nat
  historico :: "acao list"

subsection \<open>The sender (send\_events, send\_events\_batch)\<close>

text \<open>
  An attempt succeeds when the status is 200 and the body decodes; a status 200 whose
  body does not decode raises inside the \<^verbatim>\<open>try\<close> and counts as a failed attempt.
\<close>

definition sucesso :: "resposta \<Rightarrow> bool" where
  "sucesso r = (case r of Status c json_ok \<Rightarrow> c = 200 \<and> json_ok | _ \<Rightarrow> False)"

definition status_200 :: "resposta \<Rightarrow> bool" where
  "status_200 r = (case r of Status c json_ok \<Rightarrow> c = 200 | _ \<Rightarrow> False)"

text \<open>
  The loop \<^verbatim>\<open>for attempt in range(self.max_retries)\<close>, from the attempt \<open>attempt\<close> on;
  \<open>m\<close> is \<^verbatim>\<open>self.max_retries\<close>.
\<close>

function send_events_loop ::
  "(nat \<Rightarrow> resposta) \<Rightarrow> carga list \<Rightarrow> int \<Rightarrow> nat \<Rightarrow> monitor \<Rightarrow> bool \<times> monitor" where
  "send_events_loop http events m attempt s =
     (if int attempt < m
      then (let r = http (n_posts s);
                s = s\<lparr>n_posts := n_posts s + 1, historico := historico s @ [Post events r]\<rparr>
            in if sucesso r then (True, s)
               else (let s = (if int attempt < m - 1
                              then s\<lparr>historico := historico s @ [Sleep 5]\<rparr> else s)
                     in send_events_loop http events m (attempt + 1) s))
      else (False, s))"
  by pat_completeness auto
termination
  by (relation "measure (\<lambda>(http, events, m, attempt, s). nat m - attempt)") auto

declare send_events_loop.simps [simp del]

definition send_events :: "(nat \<Rightarrow> resposta) \<Rightarrow> monitor \<Rightarrow> carga list \<Rightarrow> bool \<times> monitor" where
  "send_events http s events =
     (if events = [] then (True, s) else send_events_loop http events (max_retries s) 0 s)"

text \<open>
  What a call of the sender may change: the number of requests and the history, nothing
  else of the monitor.
\<close>

definition so_envio :: "monitor \<Rightarrow> monitor \<Rightarrow> bool" where
  "so_envio s s' =
     (max_retries s' = max_retries s \<and> batch_size s' = batch_size s
      \<and> process_all_on_start s' = process_all_on_start s \<and> machine_name s' = machine_name s
      \<and> eventos_processados s' = eventos_processados s
      \<and> highest_record_id s' = highest_record_id s \<and> arquivo s' = arquivo s)"

text \<open>
  The history of \<open>k\<close> attempts to send \<open>events\<close>, the first of them the request number
  \<open>n0\<close>: the requests with a pause of five seconds between two of them, and none after
  the last.
\<close>

fun entre :: "'a \<Rightarrow> 'a list \<Rightarrow> 'a list" where
  "entre sep [] = []"
| "entre sep [x] = [x]"
| "entre sep (x # y # ys) = x # sep # entre sep (y # ys)"

definition tentativas :: "(nat \<Rightarrow> resposta) \<Rightarrow> carga list \<Rightarrow> nat \<Rightarrow> nat \<Rightarrow> acao list" where
  "tentativas http events n0 k =
     entre (Sleep 5) (map (\<lambda>i. Post events (http (n0 + i))) [0 ..< k])"

text \<open>The records that the requests of a history carried.\<close>

fun cargas_de :: "acao \<Rightarrow> carga list" where
  "cargas_de (Post cs r) = cs"
| "cargas_de (Sleep n) = []"

definition postadas :: "acao list \<Rightarrow> carga set" where
  "postadas h = set (concat (map cargas_de h))"

text \<open>The requests of a history that the server confirmed.\<close>

definition confirmadas :: "acao list \<Rightarrow> acao list" where
  "confirmadas h = filter (\<lambda>a. case a of Post cs r \<Rightarrow> sucesso r | Sleep n \<Rightarrow> False) h"

text \<open>
  The loop \<^verbatim>\<open>for i in range(0, total_events, self.batch_size)\<close> for a positive batch
  size \<open>bs\<close>, from the index \<open>i\<close> on, with the list \<^verbatim>\<open>failed_batches\<close>.
\<close>

function lotes_loop ::
  "(nat \<Rightarrow> resposta) \<Rightarrow> carga list \<Rightarrow> nat \<Rightarrow> nat \<Rightarrow> monitor \<times> nat list \<Rightarrow> monitor \<times> nat list" where
  "lotes_loop http events_to_send bs i st =
     (if i < length events_to_send \<and> 0 < bs
      then (case st of (s, failed_batches) \<Rightarrow>
              (let batch = take bs (drop i events_to_send);
                   res = send_events http s batch;
                   failed_batches = (if fst res then failed_batches else failed_batches @ [i]);
                   s = (if i + bs < length events_to_send
                        then (snd res)\<lparr>historico := historico (snd res) @ [Sleep 1]\<rparr>
                        else snd res)
               in lotes_loop http events_to_send bs (i + bs) (s, failed_batches)))
      else st)"
  by pat_completeness auto
termination
  by (relation "measure (\<lambda>(http, events_to_send, bs, i, st). length events_to_send - i)") auto

declare lotes_loop.simps [simp del]

text \<open>
  \<^verbatim>\<open>send_events_batch\<close>. A batch size of zero makes \<^verbatim>\<open>range\<close> raise \<^verbatim>\<open>ValueError\<close>;
  a negative one makes the range empty, so that nothing is sent and the result is
  \<^verbatim>\<open>True\<close>.
\<close>

definition send_events_batch ::
  "(nat \<Rightarrow> resposta) \<Rightarrow> monitor \<Rightarrow> evento list \<Rightarrow> erro + (bool \<times> monitor)" where
  "send_events_batch http s events =
     (if events = [] then Inr (True, s)
      else if batch_size s = 0 then Inl ValueError
      else if batch_size s < 0 then Inr (True, s)
      else (case lotes_loop http (map sem_record_id events) (nat (batch_size s)) 0 (s, []) of
              (s', failed_batches) \<Rightarrow> Inr (failed_batches = [], s')))"

subsection \<open>The set of processed identities and its file\<close>

text \<open>
  \<^verbatim>\<open>carregar_eventos_processados\<close>: an entry that is a bare integer (the old format)
  becomes the identity of that number on this machine.
\<close>

definition carregar_eventos_processados :: "string \<Rightarrow> pid set option \<Rightarrow> string set" where
  "carregar_eventos_processados self_machine_name arq =
     (case arq of
        None \<Rightarrow> {}
      | Some processed_ids \<Rightarrow>
          (\<lambda>p. case p of PidInt n \<Rightarrow> self_machine_name @ ''_'' @ str_of_int n | PidStr x \<Rightarrow> x)
            ` processed_ids)"

text \<open>
  The loop of \<^verbatim>\<open>__init__\<close> over the loaded identities. A Python set is iterated in
  an order the language does not fix; the model takes the sorted order, which does not
  matter for a maximum.
\<close>

definition maior_id :: "string \<Rightarrow> int \<Rightarrow> string \<Rightarrow> int" where
  "maior_id self_machine_name highest evento_id =
     (if startswith evento_id (self_machine_name @ ''_'')
      then (case split_1 evento_id of
              None \<Rightarrow> highest
            | Some (_, resto) \<Rightarrow> (case py_int resto of None \<Rightarrow> highest | Some n \<Rightarrow> max highest n))
      else highest)"

definition init :: "int \<Rightarrow> int \<Rightarrow> bool \<Rightarrow> string \<Rightarrow> pid set option \<Rightarrow> monitor" where
  "init cfg_max_retries cfg_batch_size cfg_process_all hostname arq =
     (let carregados = carregar_eventos_processados hostname arq
      in \<lparr>max_retries = cfg_max_retries, batch_size = cfg_batch_size,
          process_all_on_start = cfg_process_all, machine_name = hostname,
          eventos_processados = carregados,
          highest_record_id = foldl (maior_id hostname) 0 (sorted_list_of_set carregados),
          arquivo = arq, n_posts = 0, historico = []\<rparr>)"

text \<open>
  The clean-up of \<^verbatim>\<open>salvar_eventos_processados\<close>, run when the set holds more than
  50000 identities: per machine (the text before the first underscore) the 10000
  identities with the largest numbers are kept; an identity with no underscore or whose
  rest is not a number is dropped. The sort is stable; among identities of one machine
  with the same number the iteration order of the set decides, here the sorted order.
\<close>

definition ultimos :: "nat \<Rightarrow> 'a list \<Rightarrow> 'a list" where
  "ultimos n xs = drop (length xs - n) xs"

definition eventos_por_maquina :: "string set \<Rightarrow> (string \<times> int \<times> string) list" where
  "eventos_por_maquina S =
     List.map_filter
       (\<lambda>evento_id. case split_1 evento_id of
           None \<Rightarrow> None
         | Some (maquina, resto) \<Rightarrow>
             (case py_int resto of None \<Rightarrow> None | Some n \<Rightarrow> Some (maquina, n, evento_id)))
       (sorted_list_of_set S)"

definition limpar_arquivo :: "string set \<Rightarrow> string set" where
  "limpar_arquivo S =
     (let por_maquina = eventos_por_maquina S
      in \<Union> ((\<lambda>maquina.
                 set (map snd (ultimos 10000
                   (sort_key fst (map snd (filter (\<lambda>p. fst p = maquina) por_maquina))))))
              ` set (map fst por_maquina)))"

definition salvar_eventos_processados :: "monitor \<Rightarrow> monitor" where
  "salvar_eventos_processados s =
     (let s = (if card (eventos_processados s) > 50000
               then s\<lparr>eventos_processados := limpar_arquivo (eventos_processados s)\<rparr> else s)
      in s\<lparr>arquivo := Some (PidStr ` eventos_processados s)\<rparr>)"

subsection \<open>The catch-up pass (processar\_todos\_eventos)\<close>

definition id_do_raw :: "string \<Rightarrow> raw_evento \<Rightarrow> string" where
  "id_do_raw self_machine_name evento_raw =
     criar_id_unico self_machine_name (RecordId evento_raw) (Some (MachineName evento_raw))"

text \<open>The body of the loop that marks the events of a delivered pass.\<close>

definition marcar :: "monitor \<Rightarrow> raw_evento \<Rightarrow> monitor" where
  "marcar s evento_raw =
     (let s = s\<lparr>eventos_processados :=
                  insert (id_do_raw (machine_name s) evento_raw) (eventos_processados s)\<rparr>
      in if MachineName evento_raw = machine_name s \<and> RecordId evento_raw > highest_record_id s
         then s\<lparr>highest_record_id := RecordId evento_raw\<rparr> else s)"

definition nao_processados :: "monitor \<Rightarrow> raw_evento list \<Rightarrow> raw_evento list" where
  "nao_processados s eventos_raw =
     filter (\<lambda>e. id_do_raw (machine_name s) e \<notin> eventos_processados s) eventos_raw"

text \<open>
  \<^verbatim>\<open>processar_todos_eventos\<close>; \<open>eventos_raw\<close> is what
  \<^verbatim>\<open>buscar_todos_eventos_powershell\<close> returned.
\<close>

definition processar_todos_eventos ::
  "(nat \<Rightarrow> resposta) \<Rightarrow> raw_evento list \<Rightarrow> monitor \<Rightarrow> erro + monitor" where
  "processar_todos_eventos http eventos_raw s =
     (if eventos_raw = [] then Inr s
      else (let eventos_nao_processados = nao_processados s eventos_raw
            in if eventos_nao_processados = [] then Inr s
               else (let eventos = List.map_filter extrair_dados_evento eventos_nao_processados
                     in if eventos = [] then Inr s
                        else (case send_events_batch http s eventos of
                                Inl e \<Rightarrow> Inl e
                              | Inr (ok, s) \<Rightarrow>
                                  if ok
                                  then Inr (salvar_eventos_processados
                                              (foldl marcar s eventos_nao_processados))
                                  else Inr s))))"

text \<open>The records a pass extracts from the events it has not processed yet.\<close>

definition extraidos :: "monitor \<Rightarrow> raw_evento list \<Rightarrow> evento list" where
  "extraidos s eventos_raw =
     List.map_filter extrair_dados_evento (nao_processados s eventos_raw)"

subsection \<open>The polling loop (monitor\_events)\<close>

text \<open>The filter of one tick: the loop over the recent events.\<close>

definition aceitar :: "monitor \<times> evento list \<Rightarrow> raw_evento \<Rightarrow> monitor \<times> evento list" where
  "aceitar st evento_raw =
     (case st of (s, novos_eventos) \<Rightarrow>
        (let evento_id_unico = id_do_raw (machine_name s) evento_raw
         in if evento_id_unico \<notin> eventos_processados s
               \<and> MachineName evento_raw = machine_name s
               \<and> RecordId evento_raw > highest_record_id s
            then (case extrair_dados_evento evento_raw of
                    None \<Rightarrow> (s, novos_eventos)
                  | Some ev \<Rightarrow>
                      (s\<lparr>eventos_processados := insert evento_id_unico (eventos_processados s)\<rparr>,
                       novos_eventos @ [ev]))
            else (s, novos_eventos)))"

text \<open>The body of the loop over the buffer after a delivery of the polling loop.\<close>

definition confirmar :: "monitor \<Rightarrow> evento \<Rightarrow> monitor" where
  "confirmar s e =
     (let s = s\<lparr>eventos_processados :=
                  insert (criar_id_unico (machine_name s) (record_id e) None)
                    (eventos_processados s)\<rparr>
      in if record_id e > highest_record_id s then s\<lparr>highest_record_id := record_id e\<rparr> else s)"

text \<open>
  Python's \<^verbatim>\<open>>\<close> on the values the clean-up of the cache compares: two integers or
  two strings compare, a string and an integer raise \<^verbatim>\<open>TypeError\<close>.
\<close>

datatype pyval = PStr string | PInt int

fun py_gt :: "pyval \<Rightarrow> pyval \<Rightarrow> erro + bool" where
  "py_gt (PInt a) (PInt b) = Inr (a > b)"
| "py_gt (PStr a) (PStr b) = Inr (a > b)"
| "py_gt (PStr a) (PInt b) = Inl TypeError"
| "py_gt (PInt a) (PStr b) = Inl TypeError"

text \<open>
  The clean-up of the cache at the end of a tick: the set comprehension
  \<^verbatim>\<open>{rid for rid in self.eventos_processados if rid > self.highest_record_id - 5000}\<close>
  compares each identity, a string, with an integer. The comprehension raises as soon as
  one comparison does, and the attribute is then not assigned.
\<close>

definition limpar_cache :: "monitor \<Rightarrow> erro + monitor" where
  "limpar_cache s =
     (if card (eventos_processados s) > 10000
      then (if \<exists>rid \<in> eventos_processados s.
                 py_gt (PStr rid) (PInt (highest_record_id s - 5000)) = Inl TypeError
            then Inl TypeError
            else Inr (s\<lparr>eventos_processados :=
                          {rid \<in> eventos_processados s.
                             py_gt (PStr rid) (PInt (highest_record_id s - 5000)) = Inr True}\<rparr>))
      else Inr s)"

text \<open>
  One iteration of \<^verbatim>\<open>while True\<close>: the monitor and the buffer before and after, and the
  exception the \<^verbatim>\<open>except Exception\<close> branch caught, if any. \<open>eventos_raw\<close> is what
  \<^verbatim>\<open>buscar_eventos_recentes_powershell\<close> returned.
\<close>

definition entregar_buffer ::
  "(nat \<Rightarrow> resposta) \<Rightarrow> monitor \<times> evento list \<Rightarrow> monitor \<times> evento list" where
  "entregar_buffer http st =
     (case st of (s, eventos_buffer) \<Rightarrow>
        if eventos_buffer \<noteq> []
        then (let res = send_events http s (map sem_record_id eventos_buffer)
              in if fst res
                 then (salvar_eventos_processados (foldl confirmar (snd res) eventos_buffer), [])
                 else (snd res, if length eventos_buffer > 1000 then ultimos 500 eventos_buffer
                                else eventos_buffer))
        else (s, eventos_buffer))"

definition tick ::
  "(nat \<Rightarrow> resposta) \<Rightarrow> raw_evento list \<Rightarrow> monitor \<times> evento list
     \<Rightarrow> (monitor \<times> evento list) \<times> erro option" where
  "tick http eventos_raw st =
     (case st of (s, eventos_buffer) \<Rightarrow>
        (let (s, novos_eventos) = foldl aceitar (s, []) eventos_raw;
             eventos_buffer = (if novos_eventos \<noteq> [] then eventos_buffer @ novos_eventos
                               else eventos_buffer);
             (s, eventos_buffer) = entregar_buffer http (s, eventos_buffer)
         in case limpar_cache s of
              Inl e \<Rightarrow> ((s, eventos_buffer), Some e)
            | Inr s' \<Rightarrow> ((s', eventos_buffer), None)))"

text \<open>
  After the loop (\<^verbatim>\<open>KeyboardInterrupt\<close>): the last delivery of the buffer and the final
  save, which runs whatever the delivery gave.
\<close>

definition marcar_restante :: "monitor \<Rightarrow> evento \<Rightarrow> monitor" where
  "marcar_restante s e =
     s\<lparr>eventos_processados :=
         insert (criar_id_unico (machine_name s) (record_id e) None) (eventos_processados s)\<rparr>"

definition drenar :: "(nat \<Rightarrow> resposta) \<Rightarrow> monitor \<times> evento list \<Rightarrow> monitor" where
  "drenar http st =
     (case st of (s, eventos_buffer) \<Rightarrow>
        (let s = (if eventos_buffer \<noteq> []
                  then (let res = send_events http s (map sem_record_id eventos_buffer)
                        in if fst res
                           then salvar_eventos_processados
                                  (foldl marcar_restante (snd res) eventos_buffer)
                           else snd res)
                  else s)
         in salvar_eventos_processados s))"

text \<open>
  \<^verbatim>\<open>monitor_events\<close>: the catch-up pass if configured, one tick for each list of recent
  events in \<open>ticks\<close>, then the interrupt (taken between two ticks) and the draining.
\<close>

definition ticks_loop ::
  "(nat \<Rightarrow> resposta) \<Rightarrow> raw_evento list list \<Rightarrow> monitor \<times> evento list \<Rightarrow> monitor \<times> evento list" where
  "ticks_loop http ticks st = foldl (\<lambda>st eventos_raw. fst (tick http eventos_raw st)) st ticks"

definition monitor_events ::
  "(nat \<Rightarrow> resposta) \<Rightarrow> raw_evento list \<Rightarrow> raw_evento list list \<Rightarrow> monitor \<Rightarrow> erro + monitor" where
  "monitor_events http todos ticks s =
     (case (if process_all_on_start s then processar_todos_eventos http todos s else Inr s) of
        Inl e \<Rightarrow> Inl e
      | Inr s \<Rightarrow> Inr (drenar http (ticks_loop http ticks (s, []))))"

text \<open>
  The events a tick accepts (\<^verbatim>\<open>novos_eventos\<close>) and the monitor after its filter; the
  identity under which the polling loop knows a buffered record; and what holds of the
  buffer between two ticks: no sequence number twice, every record from this machine and
  its identity in the set of processed identities.
\<close>

definition novos_do_tick :: "monitor \<Rightarrow> raw_evento list \<Rightarrow> evento list" where
  "novos_do_tick s eventos_raw = snd (foldl aceitar (s, []) eventos_raw)"

definition apos_filtro :: "monitor \<Rightarrow> raw_evento list \<Rightarrow> monitor" where
  "apos_filtro s eventos_raw = fst (foldl aceitar (s, []) eventos_raw)"

definition id_do_evento :: "string \<Rightarrow> evento \<Rightarrow> string" where
  "id_do_evento self_machine_name e = criar_id_unico self_machine_name (record_id e) None"

definition buffer_ok :: "monitor \<Rightarrow> evento list \<Rightarrow> bool" where
  "buffer_ok s eventos_buffer =
     (distinct (map record_id eventos_buffer) \<and>
      (\<forall>e \<in> set eventos_buffer.
         machine e = machine_name s \<and>
         id_do_evento (machine_name s) e \<in> eventos_processados s))"

text \<open>
  What the filter of a tick may change: it only adds identities. An event is accepted by
  the filter of a tick that starts in \<open>s\<close> only if it is the extraction of a fetched
  event that is new, local and above the high-water mark. The buffer a tick tries to
  deliver is the old buffer followed by the accepted events.
\<close>

definition so_conjunto :: "monitor \<Rightarrow> monitor \<Rightarrow> bool" where
  "so_conjunto s s' =
     (max_retries s' = max_retries s \<and> batch_size s' = batch_size s
      \<and> process_all_on_start s' = process_all_on_start s \<and> machine_name s' = machine_name s
      \<and> eventos_processados s \<subseteq> eventos_processados s'
      \<and> highest_record_id s' = highest_record_id s \<and> arquivo s' = arquivo s
      \<and> n_posts s' = n_posts s \<and> historico s' = historico s)"

definition aceito :: "monitor \<Rightarrow> raw_evento list \<Rightarrow> evento \<Rightarrow> bool" where
  "aceito s eventos_raw e =
     (\<exists>raw \<in> set eventos_raw. extrair_dados_evento raw = Some e \<and>
        id_do_raw (machine_name s) raw \<notin> eventos_processados s \<and>
        MachineName raw = machine_name s \<and> RecordId raw > highest_record_id s)"

definition buffer_do_tick :: "monitor \<Rightarrow> evento list \<Rightarrow> raw_evento list \<Rightarrow> evento list" where
  "buffer_do_tick s eventos_buffer eventos_raw = eventos_buffer @ novos_do_tick s eventos_raw"

subsection \<open>Sample events\<close>

definition raw_exemplo :: "string \<Rightarrow> raw_evento" where
  "raw_exemplo mensagem =
     \<lparr>RecordId = 1, TimeCreated = ''2024-01-01 10:00:00'', MachineName = ''PC1'',
      Message = Some mensagem\<rparr>"

definition dados_exemplo :: "int \<Rightarrow> evento" where
  "dados_exemplo n =
     \<lparr>record_id = 1, date = ''2024-01-01 10:00:00'', user = ''Desconhecido'', machine = ''PC1'',
      pages = n, document = ''Documento'', printer = ''Impressora''\<rparr>"

definition monitor_exemplo :: monitor where
  "monitor_exemplo = init 3 50 True ''PC1'' None"

definition carga_exemplo :: carga where
  "carga_exemplo = sem_record_id (dados_exemplo 1)"

definition raw_n :: "int \<Rightarrow> string \<Rightarrow> string option \<Rightarrow> raw_evento" where
  "raw_n n host mensagem =
     \<lparr>RecordId = n, TimeCreated = ''2024-01-01 10:00:00'', MachineName = host,
      Message = mensagem\<rparr>"

definition muitos_ids :: "string set" where
  "muitos_ids = (\<lambda>n. ''PC1_'' @ str_of_nat n) ` {0 .. 10000}"

text \<open>A message whose page count has 4301 digits, one more than \<^verbatim>\<open>int\<close> accepts.\<close>

definition mensagem_longa :: string where
  "mensagem_longa = ''Pages printed: '' @ replicate 4301 CHR ''9''"

text \<open>
  A state file with the identities of the events 1 to 50001 of another machine, and the
  monitor that has loaded it.
\<close>

definition arquivo_cheio :: "string set" where
  "arquivo_cheio = (\<lambda>n. ''PC2_'' @ str_of_nat n) ` {1 .. 50001}"

definition monitor_cheio :: monitor where
  "monitor_cheio = monitor_exemplo\<lparr>eventos_processados := arquivo_cheio\<rparr>"

text \<open>The message of the example scenario of the specification.\<close>

definition mensagem_da_spec :: string where
  "mensagem_da_spec = ''Document 3, report.docx owned by alice on '' @ [CHR 0x5C, CHR 0x5C]
     @ ''PC1 was printed on HP-LaserJet. Pages printed: 7.''"

section \<open>Properties\<close>

subsection \<open>The identity encoding\<close>

lemma digit_val_digit_char: "d < 10 \<Longrightarrow> digit_val (digit_char d) = d"
  by (simp add: digit_val_def digit_char_def)

lemma digit_char_range: "d < 10 \<Longrightarrow> (of_char (digit_char d) :: nat) = 48 + d"
  by (simp add: digit_char_def)

lemma digit_char_not_underscore: "d < 10 \<Longrightarrow> digit_char d \<noteq> CHR ''_''"
proof
  assume d: "d < 10" and e: "digit_char d = CHR ''_''"
  from e have "(of_char (digit_char d) :: nat) = of_char (CHR ''_'')" by simp
  with d show False by (simp add: digit_char_range)
qed

lemma digit_char_not_minus: "d < 10 \<Longrightarrow> digit_char d \<noteq> CHR ''-''"
proof
  assume d: "d < 10" and e: "digit_char d = CHR ''-''"
  from e have "(of_char (digit_char d) :: nat) = of_char (CHR ''-'')" by simp
  with d show False by (simp add: digit_char_range)
qed

lemma str_of_nat_chars: "c \<in> set (str_of_nat n) \<Longrightarrow> \<exists>d<10. c = digit_char d"
proof (induction n rule: str_of_nat.induct)
  case (1 n)
  show ?case
  proof (cases "n < 10")
    case True
    with "1.prems" show ?thesis by (subst (asm) str_of_nat.simps) auto
  next
    case False
    with "1.prems" have "c \<in> set (str_of_nat (n div 10)) \<or> c = digit_char (n mod 10)"
      by (subst (asm) str_of_nat.simps) auto
    then show ?thesis
    proof
      assume "c \<in> set (str_of_nat (n div 10))"
      with False "1.IH" show ?thesis by simp
    next
      assume "c = digit_char (n mod 10)"
      moreover have "n mod 10 < 10" by simp
      ultimately show ?thesis by blast
    qed
  qed
qed

lemma str_of_nat_nonempty: "str_of_nat n \<noteq> []"
  by (subst str_of_nat.simps) simp

lemma nat_of_digits_snoc: "nat_of_digits (xs @ [c]) = 10 * nat_of_digits xs + digit_val c"
  by (simp add: nat_of_digits_def)

lemma nat_of_digits_str_of_nat: "nat_of_digits (str_of_nat n) = n"
proof (induction n rule: str_of_nat.induct)
  case (1 n)
  show ?case
  proof (cases "n < 10")
    case True
    then show ?thesis
      by (subst str_of_nat.simps) (simp add: nat_of_digits_def digit_val_digit_char)
  next
    case False
    with 1 have "nat_of_digits (str_of_nat (n div 10)) = n div 10" by simp
    with False show ?thesis
      by (subst str_of_nat.simps) (simp add: nat_of_digits_snoc digit_val_digit_char)
  qed
qed

lemma str_of_nat_inj: "str_of_nat a = str_of_nat b \<Longrightarrow> a = b"
  by (metis nat_of_digits_str_of_nat)

lemma str_of_nat_hd_not_minus: "str_of_nat n \<noteq> CHR ''-'' # t"
proof
  assume e: "str_of_nat n = CHR ''-'' # t"
  then have "CHR ''-'' \<in> set (str_of_nat n)" by simp
  then obtain d where "d < 10" "CHR ''-'' = digit_char d" using str_of_nat_chars by blast
  then show False using digit_char_not_minus by metis
qed

lemma str_of_int_inj: "str_of_int a = str_of_int b \<Longrightarrow> a = b"
proof -
  assume e: "str_of_int a = str_of_int b"
  consider "a < 0" "b < 0" | "a < 0" "0 \<le> b" | "0 \<le> a" "b < 0" | "0 \<le> a" "0 \<le> b"
    by linarith
  then show ?thesis
  proof cases
    case 1
    with e have "str_of_nat (nat (- a)) = str_of_nat (nat (- b))" by (simp add: str_of_int_def)
    then have "nat (- a) = nat (- b)" by (rule str_of_nat_inj)
    with 1 show ?thesis by simp
  next
    case 2
    with e have "str_of_nat (nat b) = CHR ''-'' # str_of_nat (nat (- a))"
      by (simp add: str_of_int_def)
    then show ?thesis using str_of_nat_hd_not_minus by blast
  next
    case 3
    with e have "str_of_nat (nat a) = CHR ''-'' # str_of_nat (nat (- b))"
      by (simp add: str_of_int_def)
    then show ?thesis using str_of_nat_hd_not_minus by blast
  next
    case 4
    with e have "str_of_nat (nat a) = str_of_nat (nat b)" by (simp add: str_of_int_def)
    then have "nat a = nat b" by (rule str_of_nat_inj)
    with 4 show ?thesis by simp
  qed
qed

lemma str_of_int_no_underscore: "CHR ''_'' \<notin> set (str_of_int i)"
proof
  assume "CHR ''_'' \<in> set (str_of_int i)"
  then have "CHR ''_'' \<in> set (str_of_nat (nat (- i))) \<or> CHR ''_'' \<in> set (str_of_nat (nat i))"
    by (auto simp: str_of_int_def split: if_splits)
  then obtain d where "d < 10" "CHR ''_'' = digit_char d" using str_of_nat_chars by blast
  then show False using digit_char_not_underscore by metis
qed

lemma last_underscore_split:
  assumes "CHR ''_'' \<notin> set d1" "CHR ''_'' \<notin> set d2" "a @ CHR ''_'' # d1 = b @ CHR ''_'' # d2"
  shows "a = b \<and> d1 = d2"
proof -
  from assms(3) have "rev (a @ CHR ''_'' # d1) = rev (b @ CHR ''_'' # d2)" by simp
  then have e: "rev d1 @ CHR ''_'' # rev a = rev d2 @ CHR ''_'' # rev b" by simp
  have "takeWhile (\<lambda>c. c \<noteq> CHR ''_'') (rev d1 @ CHR ''_'' # rev a) = rev d1"
    using assms(1) by (auto simp: takeWhile_tail)
  moreover have "takeWhile (\<lambda>c. c \<noteq> CHR ''_'') (rev d2 @ CHR ''_'' # rev b) = rev d2"
    using assms(2) by (auto simp: takeWhile_tail)
  ultimately have "rev d1 = rev d2" using e by simp
  then have d: "d1 = d2" by simp
  with assms(3) show ?thesis by simp
qed

text \<open>
  Claim C9, as amended. The identity is the function \<open>criar_id_unico\<close> of the host and the
  sequence number (a HOL function, so pure and deterministic). For host names that are not
  empty it is injective: equal identities come from the same host and the same sequence
  number, for every integer sequence number (the non-negative ones in particular) and
  also when a host name contains underscores, because the digits (and the sign) of the
  number hold no underscore and the text after the last underscore is the number.
\<close>

theorem criar_id_unico_injective:
  assumes "h1 \<noteq> []" "h2 \<noteq> []"
    and "criar_id_unico m s1 (Some h1) = criar_id_unico m s2 (Some h2)"
  shows "h1 = h2 \<and> s1 = s2"
proof -
  from assms have "h1 @ CHR ''_'' # str_of_int s1 = h2 @ CHR ''_'' # str_of_int s2"
    by (simp add: criar_id_unico_def)
  then have "h1 = h2 \<and> str_of_int s1 = str_of_int s2"
    using last_underscore_split str_of_int_no_underscore by blast
  then show ?thesis using str_of_int_inj by blast
qed

theorem criar_id_unico_injective_witness:
  "criar_id_unico ''PC1'' 2 (Some ''A_1'') \<noteq> criar_id_unico ''PC1'' 12 (Some ''A'')"
  using criar_id_unico_injective [of "''A_1''" "''A''" "''PC1''" 2 12] by auto

text \<open>
  Claim C9 as stated fails at the empty host name: \<^verbatim>\<open>not machine_name\<close> replaces it by
  the local machine name, so the empty host and the local host give one identity.
\<close>

theorem criar_id_unico_empty_host_collision:
  "criar_id_unico ''PC1'' 5 (Some '''') = criar_id_unico ''PC1'' 5 (Some ''PC1'') \<and> '''' \<noteq> ''PC1''"
  by (simp add: criar_id_unico_def)


subsection \<open>The page count of an extracted record\<close>

lemma pages_extrai_documento: "pages (extrai_documento r m d) = pages d"
  by (simp add: extrai_documento_def split: option.splits list.splits)

lemma pages_extrai_impressora: "pages (extrai_impressora r m d) = pages d"
  by (simp add: extrai_impressora_def split: option.splits list.splits)

lemma tenta_paginas_found:
  "tenta_paginas ic r m (d, True) = Inr (d, True)"
  by (simp add: tenta_paginas_def)

lemma tenta_paginas_not_found:
  "tenta_paginas ic r m (d, False) =
     (case busca_int ic r m of
        None \<Rightarrow> Inr (d, False)
      | Some (Inl e) \<Rightarrow> Inl e
      | Some (Inr v) \<Rightarrow> Inr (d\<lparr>pages := v\<rparr>, True))"
  by (simp add: tenta_paginas_def)

lemma ramo_portugues_casos:
  "case primeiro_casamento [(False, rx_pt1), (False, rx_pt2), (True, rx_pt3)] m of
     None \<Rightarrow> (\<exists>d'. ramo_portugues m d = Inr d' \<and> pages d' = pages d)
   | Some (Inl e) \<Rightarrow> ramo_portugues m d = Inl e
   | Some (Inr v) \<Rightarrow> (\<exists>d'. ramo_portugues m d = Inr d' \<and> pages d' = v)"
  by (simp add: ramo_portugues_def Let_def entao_def tenta_paginas_found tenta_paginas_not_found
      pages_extrai_documento pages_extrai_impressora split: option.splits sum.splits)

lemma ramo_ingles_casos:
  "case primeiro_casamento [(False, rx_en1), (False, rx_en2), (True, rx_en3), (False, rx_4)] m of
     None \<Rightarrow> (\<exists>d'. ramo_ingles m d = Inr d' \<and> pages d' = pages d)
   | Some (Inl e) \<Rightarrow> ramo_ingles m d = Inl e
   | Some (Inr v) \<Rightarrow> (\<exists>d'. ramo_ingles m d = Inr d' \<and> pages d' = v)"
  by (simp add: ramo_ingles_def Let_def entao_def tenta_paginas_found tenta_paginas_not_found
      pages_extrai_documento pages_extrai_impressora split: option.splits sum.splits)

lemma ramo_casos:
  "case primeiro_casamento (padroes_do_ramo m) m of
     None \<Rightarrow> (\<exists>d'. (if eh_portugues m then ramo_portugues m d else ramo_ingles m d) = Inr d'
                 \<and> pages d' = pages d)
   | Some (Inl e) \<Rightarrow> (if eh_portugues m then ramo_portugues m d else ramo_ingles m d) = Inl e
   | Some (Inr v) \<Rightarrow> (\<exists>d'. (if eh_portugues m then ramo_portugues m d else ramo_ingles m d) = Inr d'
                 \<and> pages d' = v)"
  using ramo_portugues_casos [of m d] ramo_ingles_casos [of m d]
  by (simp add: padroes_do_ramo_def)

lemma busca_generica_range: "busca_generica ps m = Inr (Some v) \<Longrightarrow> 1 \<le> v \<and> v \<le> 10000"
  by (induction ps) (auto split: option.splits sum.splits if_splits)


lemma busca_generica_none:
  "busca_generica ps m = Inr None \<longleftrightarrow> (\<forall>r\<in>set ps. sem_valor r m)"
  by (induction ps) (auto simp: sem_valor_def split: option.splits sum.splits)

lemma busca_generica_some:
  "busca_generica ps m = Inr (Some g) \<longleftrightarrow>
     (\<exists>antes r depois. ps = antes @ r # depois \<and> (\<forall>q\<in>set antes. sem_valor q m) \<and>
        busca_int True r m = Some (Inr g) \<and> 1 \<le> g \<and> g \<le> 10000)"
proof (induction ps)
  case Nil
  then show ?case by simp
next
  case (Cons p ps)
  show ?case
  proof (cases "sem_valor p m")
    case True
    then have "busca_generica (p # ps) m = busca_generica ps m"
      by (auto simp: sem_valor_def split: option.splits sum.splits)
    moreover have "(\<exists>antes r depois. p # ps = antes @ r # depois \<and> (\<forall>q\<in>set antes. sem_valor q m) \<and>
        busca_int True r m = Some (Inr g) \<and> 1 \<le> g \<and> g \<le> 10000)
      \<longleftrightarrow> (\<exists>antes r depois. ps = antes @ r # depois \<and> (\<forall>q\<in>set antes. sem_valor q m) \<and>
        busca_int True r m = Some (Inr g) \<and> 1 \<le> g \<and> g \<le> 10000)"
      (is "?L \<longleftrightarrow> ?R")
    proof
      assume ?L
      then obtain antes r depois where a: "p # ps = antes @ r # depois"
        "\<forall>q\<in>set antes. sem_valor q m" "busca_int True r m = Some (Inr g)" "1 \<le> g" "g \<le> 10000"
        by blast
      show ?R
      proof (cases antes)
        case Nil
        with a(1) have "r = p" by simp
        with a(3,4,5) True show ?thesis by (simp add: sem_valor_def)
      next
        case (Cons q qs)
        with a have "ps = qs @ r # depois" "\<forall>q\<in>set qs. sem_valor q m" by simp_all
        with a(3,4,5) show ?thesis by blast
      qed
    next
      assume ?R
      then obtain antes r depois where a: "ps = antes @ r # depois"
        "\<forall>q\<in>set antes. sem_valor q m" "busca_int True r m = Some (Inr g)" "1 \<le> g" "g \<le> 10000"
        by blast
      then have "p # ps = (p # antes) @ r # depois" "\<forall>q\<in>set (p # antes). sem_valor q m"
        using True by simp_all
      with a(3,4,5) show ?L by blast
    qed
    ultimately show ?thesis using Cons.IH by simp
  next
    case False
    have l: "busca_generica (p # ps) m = Inr (Some g) \<longleftrightarrow>
        busca_int True p m = Some (Inr g) \<and> 1 \<le> g \<and> g \<le> 10000"
      using False by (auto simp: sem_valor_def split: option.splits sum.splits)
    have r: "(\<exists>antes r depois. p # ps = antes @ r # depois \<and> (\<forall>q\<in>set antes. sem_valor q m) \<and>
        busca_int True r m = Some (Inr g) \<and> 1 \<le> g \<and> g \<le> 10000)
       \<longleftrightarrow> busca_int True p m = Some (Inr g) \<and> 1 \<le> g \<and> g \<le> 10000" (is "?L \<longleftrightarrow> ?R")
    proof
      assume ?L
      then obtain antes r depois where a: "p # ps = antes @ r # depois"
        "\<forall>q\<in>set antes. sem_valor q m" "busca_int True r m = Some (Inr g)" "1 \<le> g" "g \<le> 10000"
        by blast
      have "antes = []"
      proof (cases antes)
        case Nil then show ?thesis .
      next
        case (Cons q qs)
        with a(1,2) have "sem_valor p m" by simp
        with False show ?thesis by simp
      qed
      with a show ?R by simp
    next
      assume ?R
      then have "p # ps = [] @ p # ps" "\<forall>q\<in>set []. sem_valor q m"
        "busca_int True p m = Some (Inr g)" "1 \<le> g" "g \<le> 10000" by simp_all
      then show ?L by blast
    qed
    from l r show ?thesis by simp
  qed
qed

lemma busca_generica_erro:
  "busca_generica ps m = Inl e \<longleftrightarrow>
     (\<exists>antes r depois. ps = antes @ r # depois \<and> (\<forall>q\<in>set antes. sem_valor q m) \<and>
        busca_int True r m = Some (Inl e))"
proof (induction ps)
  case Nil
  then show ?case by simp
next
  case (Cons p ps)
  show ?case
  proof (cases "sem_valor p m")
    case True
    then have "busca_generica (p # ps) m = busca_generica ps m"
      by (auto simp: sem_valor_def split: option.splits sum.splits)
    moreover have "(\<exists>antes r depois. p # ps = antes @ r # depois \<and> (\<forall>q\<in>set antes. sem_valor q m) \<and>
        busca_int True r m = Some (Inl e))
      \<longleftrightarrow> (\<exists>antes r depois. ps = antes @ r # depois \<and> (\<forall>q\<in>set antes. sem_valor q m) \<and>
        busca_int True r m = Some (Inl e))"
      (is "?L \<longleftrightarrow> ?R")
    proof
      assume ?L
      then obtain antes r depois where a: "p # ps = antes @ r # depois"
        "\<forall>q\<in>set antes. sem_valor q m" "busca_int True r m = Some (Inl e)"
        by blast
      show ?R
      proof (cases antes)
        case Nil
        with a(1) have "r = p" by simp
        with a(3) True show ?thesis by (simp add: sem_valor_def)
      next
        case (Cons q qs)
        with a have "ps = qs @ r # depois" "\<forall>q\<in>set qs. sem_valor q m" by simp_all
        with a(3) show ?thesis by blast
      qed
    next
      assume ?R
      then obtain antes r depois where a: "ps = antes @ r # depois"
        "\<forall>q\<in>set antes. sem_valor q m" "busca_int True r m = Some (Inl e)"
        by blast
      then have "p # ps = (p # antes) @ r # depois" "\<forall>q\<in>set (p # antes). sem_valor q m"
        using True by simp_all
      with a(3) show ?L by blast
    qed
    ultimately show ?thesis using Cons.IH by simp
  next
    case False
    have l: "busca_generica (p # ps) m = Inl e \<longleftrightarrow> busca_int True p m = Some (Inl e)"
      using False by (auto simp: sem_valor_def split: option.splits sum.splits)
    have r: "(\<exists>antes r depois. p # ps = antes @ r # depois \<and> (\<forall>q\<in>set antes. sem_valor q m) \<and>
        busca_int True r m = Some (Inl e))
       \<longleftrightarrow> busca_int True p m = Some (Inl e)" (is "?L \<longleftrightarrow> ?R")
    proof
      assume ?L
      then obtain antes r depois where a: "p # ps = antes @ r # depois"
        "\<forall>q\<in>set antes. sem_valor q m" "busca_int True r m = Some (Inl e)"
        by blast
      have "antes = []"
      proof (cases antes)
        case Nil then show ?thesis .
      next
        case (Cons q qs)
        with a(1,2) have "sem_valor p m" by simp
        with False show ?thesis by simp
      qed
      with a show ?R by simp
    next
      assume ?R
      then have "p # ps = [] @ p # ps" "\<forall>q\<in>set []. sem_valor q m"
        "busca_int True p m = Some (Inl e)" by simp_all
      then show ?L by blast
    qed
    from l r show ?thesis by simp
  qed
qed

lemma extrair_paginas:
  assumes "Message raw = Some m"
  shows "case primeiro_casamento (padroes_do_ramo m) m of
      None \<Rightarrow>
        (case busca_generica patterns m of
           Inl e \<Rightarrow> extrair_dados_evento raw = None
         | Inr None \<Rightarrow> (\<exists>d. extrair_dados_evento raw = Some d \<and> pages d = 1)
         | Inr (Some g) \<Rightarrow> (\<exists>d. extrair_dados_evento raw = Some d \<and> pages d = g))
    | Some (Inl e) \<Rightarrow> extrair_dados_evento raw = None
    | Some (Inr v) \<Rightarrow>
        if v = 1
        then (case busca_generica patterns m of
           Inl e \<Rightarrow> extrair_dados_evento raw = None
         | Inr None \<Rightarrow> (\<exists>d. extrair_dados_evento raw = Some d \<and> pages d = 1)
         | Inr (Some g) \<Rightarrow> (\<exists>d. extrair_dados_evento raw = Some d \<and> pages d = g))
        else (\<exists>d. extrair_dados_evento raw = Some d \<and>
                 pages d = (if v < 1 \<or> 10000 < v then 1 else v))"
proof -
  let ?d0 = "\<lparr>record_id = RecordId raw, date = TimeCreated raw,
                        user = ''Desconhecido'', machine = MachineName raw, pages = 1,
                        document = ''Documento'', printer = ''Impressora''\<rparr>"
  let ?ramo = "if eh_portugues m then ramo_portugues m ?d0 else ramo_ingles m ?d0"
  have ex: "extrair_dados_evento raw =
     (case entao ?ramo
         (\<lambda>dados. if pages dados = 1
                        then (case busca_generica patterns m of
                                Inl e \<Rightarrow> Inl e
                              | Inr None \<Rightarrow> Inr dados
                              | Inr (Some v) \<Rightarrow> Inr (dados\<lparr>pages := v\<rparr>))
                        else Inr dados) of
                Inl e \<Rightarrow> None
              | Inr dados \<Rightarrow>
                  Some (if pages dados < 1 \<or> pages dados > 10000 then dados\<lparr>pages := 1\<rparr>
                        else dados))"
    using assms by (simp add: extrair_dados_evento_def Let_def)
  show ?thesis
  proof (cases "primeiro_casamento (padroes_do_ramo m) m")
    case None
    with ramo_casos [of m ?d0] obtain d' where d: "?ramo = Inr d'" "pages d' = 1" by auto
    show ?thesis
      unfolding ex d(1) using None d(2)
      by (auto simp: entao_def split: sum.splits option.splits dest: busca_generica_range)
  next
    case (Some x)
    show ?thesis
    proof (cases x)
      case (Inl e)
      with Some ramo_casos [of m ?d0] have "?ramo = Inl e" by simp
      then show ?thesis unfolding ex using Some Inl by (simp add: entao_def)
    next
      case (Inr v)
      with Some ramo_casos [of m ?d0] obtain d' where d: "?ramo = Inr d'" "pages d' = v" by auto
      show ?thesis
        unfolding ex d(1) using Some Inr d(2)
        by (auto simp: entao_def split: sum.splits option.splits dest: busca_generica_range)
    qed
  qed
qed

text \<open>
  The groups of the page patterns are runs of digits, so \<^verbatim>\<open>int\<close> raises on one only
  when it is longer than 4300 digits, and a message of at most 4300 characters always
  gives a record.
\<close>

lemma is_digit_not_space: "is_digit c \<Longrightarrow> \<not> int_isspace c"
  by (auto simp: is_digit_def int_isspace_def)

lemma is_digit_not_underscore: "is_digit c \<Longrightarrow> c \<noteq> CHR ''_''"
  by (auto simp: is_digit_def)

lemma is_digit_not_sign: "is_digit c \<Longrightarrow> c \<noteq> CHR ''-'' \<and> c \<noteq> CHR ''+''"
  by (auto simp: is_digit_def)

lemma int_digits_digitos:
  "list_all is_digit g \<Longrightarrow>
   int_digits acc g = Some (foldl (\<lambda>a c. 10 * a + digit_val c) acc g)"
  by (induction acc g rule: int_digits.induct) (auto simp: is_digit_not_underscore)

lemma py_int_digitos:
  assumes "g \<noteq> []" "list_all is_digit g"
  shows "py_int g = (if int_max_str_digits < length g then None
                     else Some (int (nat_of_digits g)))"
proof -
  from assms obtain c cs where g: "g = c # cs" by (cases g) auto
  with assms(2) have c: "is_digit c" by simp
  have "is_digit (last g)" using assms by (simp add: list_all_iff)
  then have "\<not> int_isspace (last g)" by (rule is_digit_not_space)
  then have r: "dropWhile int_isspace (rev g) = rev g"
    using assms(1) by (cases "rev g") (auto simp: last_rev hd_rev dest: arg_cong [where f = hd])
  have d: "dropWhile int_isspace g = g" using g c by (simp add: is_digit_not_space)
  have f: "filter is_digit g = g" using assms(2) by (simp add: list_all_iff)
  show ?thesis
    unfolding py_int_def d r
    using c is_digit_not_sign [OF c] int_digits_digitos [OF assms(2), of 0]
    by (simp add: f g [symmetric] nat_of_digits_def) (simp add: g)
qed


lemma consume_eq: "consume k (p, s, caps) = (p', s', caps') \<Longrightarrow> s' = drop k s \<and> caps' = caps"
  by (auto split: if_splits)

lemma take_takeWhile_all:
  "k \<le> length (takeWhile P s) \<Longrightarrow> list_all P (take k s)"
proof -
  assume k: "k \<le> length (takeWhile P s)"
  have "take k s = take k (takeWhile P s @ dropWhile P s)" by simp
  also have "\<dots> = take k (takeWhile P s)" using k by (simp del: takeWhile_dropWhile_id)
  finally have "set (take k s) \<subseteq> set (takeWhile P s)" by (simp add: set_take_subset)
  then show ?thesis by (auto simp: list_all_iff dest: set_takeWhileD)
qed

lemma grupos_ok_menor: "grupos_ok s' gs \<Longrightarrow> length s' \<le> length s \<Longrightarrow> grupos_ok s gs"
  by (auto simp: grupos_ok_def)

lemma rx_match_Rep1_mem:
  "q \<in> set (rx_match ic (Rep1 c) (p, s, caps)) \<Longrightarrow>
   \<exists>k. 1 \<le> k \<and> k \<le> length (takeWhile (in_class c) s) \<and> q = consume k (p, s, caps)"
  by (auto simp del: consume.simps)

lemma rx_match_Grp_mem:
  "(p', s', caps') \<in> set (rx_match ic (Grp r) (p, s, caps)) \<Longrightarrow>
   \<exists>c1. (p', s', c1) \<in> set (rx_match ic r (p, s, caps)) \<and>
        caps' = c1 @ [take (length s - length s') s]"
  by auto

lemma rx_match_grupos:
  "so_grupos_de_digitos r \<Longrightarrow> (p', s', caps') \<in> set (rx_match ic r (p, s, caps)) \<Longrightarrow>
   length s' \<le> length s \<and> (\<exists>gs. caps' = caps @ gs \<and> grupos_ok s gs)"
proof (induction r arbitrary: p s caps p' s' caps')
  case (Lit l)
  then show ?case by (auto simp: grupos_ok_def split: if_splits)
next
  case (Rep c)
  then show ?case by (auto simp: grupos_ok_def split: if_splits)
next
  case (Rep1 c)
  then show ?case by (auto simp: grupos_ok_def split: if_splits)
next
  case (Rep1Lazy c)
  then show ?case by (auto simp: grupos_ok_def split: if_splits)
next
  case (Opt r)
  then show ?case by (auto simp: grupos_ok_def)
next
  case (Alt a b)
  then show ?case by auto
next
  case (Seq a b)
  from Seq.prems(2) obtain x where x: "x \<in> set (rx_match ic a (p, s, caps))"
    "(p', s', caps') \<in> set (rx_match ic b x)" by auto
  obtain p1 s1 caps1 where x1: "x = (p1, s1, caps1)" by (cases x) auto
  from Seq.IH(1) [of p1 s1 caps1 p s caps] x(1) x1 Seq.prems(1)
  obtain gs1 where a: "length s1 \<le> length s" "caps1 = caps @ gs1" "grupos_ok s gs1" by auto
  from Seq.IH(2) [of p' s' caps' p1 s1 caps1] x(2) x1 Seq.prems(1)
  obtain gs2 where b: "length s' \<le> length s1" "caps' = caps1 @ gs2" "grupos_ok s1 gs2" by auto
  from a b have "caps' = caps @ (gs1 @ gs2)" "grupos_ok s (gs1 @ gs2)" "length s' \<le> length s"
    by (auto simp: grupos_ok_def)
  then show ?case by blast
next
  case (Grp r)
  then have r: "r = Rep1 Digit" by simp
  have cl: "in_class Digit = is_digit" by (rule ext) simp
  from rx_match_Grp_mem [OF Grp.prems(2)] obtain c1 where
    c1: "(p', s', c1) \<in> set (rx_match ic (Rep1 Digit) (p, s, caps))"
    "caps' = c1 @ [take (length s - length s') s]"
    unfolding r by blast
  from rx_match_Rep1_mem [OF c1(1)] obtain k where k0: "1 \<le> k"
    "k \<le> length (takeWhile is_digit s)" "(p', s', c1) = consume k (p, s, caps)"
    unfolding cl by blast
  from consume_eq [OF k0(3) [symmetric]] have "s' = drop k s" "c1 = caps" by simp_all
  with c1(2) k0 have k: "1 \<le> k" "k \<le> length (takeWhile is_digit s)"
    "s' = drop k s" "caps' = caps @ [take (length s - length s') s]"
    by simp_all
  have ks: "k \<le> length s" using k(2) length_takeWhile_le [of is_digit s] by linarith
  then have "length s - length s' = k" using k(3) by simp
  with k(4) have c: "caps' = caps @ [take k s]" by simp
  have "take k s \<noteq> []" using k(1) ks by (cases s) auto
  moreover have "list_all is_digit (take k s)" using k(2) by (rule take_takeWhile_all)
  ultimately have "grupos_ok s [take k s]" by (simp add: grupos_ok_def)
  with c k(3) show ?case by auto
next
  case WordB
  then show ?case by (auto simp: grupos_ok_def split: if_splits)
next
  case Eol
  then show ?case by (auto simp: grupos_ok_def split: if_splits)
qed

lemma re_search_de_grupos:
  "so_grupos_de_digitos r \<Longrightarrow> re_search_de ic r p s = Some caps \<Longrightarrow> grupos_ok s caps"
proof (induction s arbitrary: p)
  case Nil
  then obtain p' s' where "(p', s', caps) \<in> set (rx_match ic r (p, [], []))"
    by (auto split: list.splits)
  from rx_match_grupos [OF Nil.prems(1) this] show ?case by auto
next
  case (Cons c cs)
  show ?case
  proof (cases "rx_match ic r (p, c # cs, [])")
    case Nil
    with Cons.prems have "re_search_de ic r (Some c) cs = Some caps" by simp
    from Cons.IH [OF Cons.prems(1) this] show ?thesis by (rule grupos_ok_menor) simp
  next
    case (Cons x xs)
    with Cons.prems(2) obtain p' s' where "x = (p', s', caps)" by (cases x) auto
    with Cons have "(p', s', caps) \<in> set (rx_match ic r (p, c # cs, []))" by simp
    from rx_match_grupos [OF Cons.prems(1) this] show ?thesis by auto
  qed
qed

lemma busca_int_casos:
  assumes "so_grupos_de_digitos r"
  shows "case busca_int ic r m of
      None \<Rightarrow> True
    | Some (Inl e) \<Rightarrow> e = ValueError \<and>
        (\<exists>g caps. re_search ic r m = Some (g # caps) \<and> list_all is_digit g \<and>
           int_max_str_digits < length g \<and> length g \<le> length m)
    | Some (Inr v) \<Rightarrow>
        (\<exists>g caps. re_search ic r m = Some (g # caps) \<and> g \<noteq> [] \<and> list_all is_digit g \<and>
           length g \<le> int_max_str_digits \<and> v = int (nat_of_digits g))"
proof (cases "re_search ic r m")
  case None
  then show ?thesis by (simp add: busca_int_def)
next
  case (Some caps)
  then have ok: "grupos_ok m caps" using re_search_de_grupos [OF assms] by (simp add: re_search_def)
  show ?thesis
  proof (cases caps)
    case Nil
    with Some show ?thesis by (simp add: busca_int_def)
  next
    case (Cons g rest)
    with ok have g: "g \<noteq> []" "list_all is_digit g" "length g \<le> length m"
      by (simp_all add: grupos_ok_def)
    from py_int_digitos [OF g(1,2)] Some Cons g show ?thesis
      by (auto simp: busca_int_def)
  qed
qed

lemma busca_int_erro_longo:
  "so_grupos_de_digitos r \<Longrightarrow> busca_int ic r m = Some (Inl e) \<Longrightarrow> int_max_str_digits < length m"
  using busca_int_casos [of r ic m] by auto

lemma padroes_grupos:
  "\<forall>(ic, r) \<in> set (padroes_do_ramo m). so_grupos_de_digitos r"
  "\<forall>r \<in> set patterns. so_grupos_de_digitos r"
  by (simp_all add: padroes_do_ramo_def patterns_def seqs_def rx_pt1_def rx_pt2_def rx_pt3_def
      rx_en1_def rx_en2_def rx_en3_def rx_4_def rx_paginas_ou_pages_def)

lemma primeiro_casamento_erro_longo:
  "\<forall>(ic, r) \<in> set ps. so_grupos_de_digitos r \<Longrightarrow> primeiro_casamento ps m = Some (Inl e) \<Longrightarrow>
   int_max_str_digits < length m"
  by (induction ps m rule: primeiro_casamento.induct)
     (auto split: option.splits dest: busca_int_erro_longo)

lemma primeiro_casamento_erro:
  "\<forall>(ic, r) \<in> set ps. so_grupos_de_digitos r \<Longrightarrow> primeiro_casamento ps m = Some (Inl e) \<Longrightarrow>
   e = ValueError"
proof (induction ps m rule: primeiro_casamento.induct)
  case (1 m)
  then show ?case by simp
next
  case (2 ic r rest m)
  show ?case
  proof (cases "busca_int ic r m")
    case None
    with 2 show ?thesis by simp
  next
    case (Some x)
    with "2.prems"(2) have "busca_int ic r m = Some (Inl e)" by simp
    moreover from "2.prems"(1) have "so_grupos_de_digitos r" by simp
    ultimately show ?thesis using busca_int_casos [of r ic m] by simp
  qed
qed

lemma extrair_curta:
  assumes "Message raw = Some m" "length m \<le> int_max_str_digits"
  shows "\<exists>d. extrair_dados_evento raw = Some d"
proof -
  have a: "primeiro_casamento (padroes_do_ramo m) m \<noteq> Some (Inl e)" for e
    using primeiro_casamento_erro_longo [OF padroes_grupos(1), of m m e] assms(2) by auto
  have b: "busca_generica patterns m \<noteq> Inl e" for e
  proof
    assume "busca_generica patterns m = Inl e"
    then obtain antes r depois where ad: "patterns = antes @ r # depois"
      "busca_int True r m = Some (Inl e)"
      unfolding busca_generica_erro by blast
    have "r \<in> set (antes @ r # depois)" by simp
    then have "r \<in> set patterns" by (simp only: ad(1) [symmetric])
    note this ad(2)
    with padroes_grupos(2) busca_int_erro_longo [of r True m e] assms(2) show False by auto
  qed
  from extrair_paginas [OF assms(1)] a b show ?thesis
    by (auto split: option.splits sum.splits if_splits)
qed

text \<open>The search of \<^verbatim>\<open>Pages printed:\s*(\d+)\<close> in a message that ends in a long run of nines.\<close>

lemma contem_set: "contem s sub \<Longrightarrow> set sub \<subseteq> set s"
proof (induction s)
  case Nil
  then show ?case by simp
next
  case (Cons c cs)
  from Cons.prems have "take (length sub) (c # cs) = sub \<or> contem cs sub" by simp
  then show ?case
  proof
    assume "take (length sub) (c # cs) = sub"
    then have "set sub = set (take (length sub) (c # cs))" by simp
    then show ?thesis using set_take_subset [of "length sub" "c # cs"] by simp
  next
    assume "contem cs sub"
    with Cons.IH show ?thesis by auto
  qed
qed

lemma rev_upt_1: "rev [1 ..< Suc (Suc n)] = Suc n # rev [1 ..< Suc n]"
  by simp

lemma takeWhile_replicate_digit:
  "takeWhile is_digit (replicate n CHR ''9'') = replicate n CHR ''9''"
  by (induction n) (simp_all add: is_digit_def)

lemma rx_match_digitos:
  "\<exists>rest. rx_match ic (Seq (Grp (Rep1 Digit)) (Lit [])) (p, replicate (Suc n) CHR ''9'', [])
     = (Some CHR ''9'', [], [replicate (Suc n) CHR ''9'']) # rest"
proof -
  have cl: "in_class Digit = is_digit" by (rule ext) simp
  have a: "rx_match ic (Rep1 Digit) (p, replicate (Suc n) CHR ''9'', [])
     = consume (Suc n) (p, replicate (Suc n) CHR ''9'', [])
       # map (\<lambda>k. consume k (p, replicate (Suc n) CHR ''9'', [])) (rev [1 ..< Suc n])"
    by (simp only: rx_match.simps cl takeWhile_replicate_digit length_replicate rev_upt_1
        list.map)
  have "replicate (Suc n) CHR ''9'' ! n = CHR ''9''" by (rule nth_replicate) simp
  then have b: "consume (Suc n) (p, replicate (Suc n) CHR ''9'', []) = (Some CHR ''9'', [], [])"
    by (simp del: replicate.simps)
  show ?thesis
    by (simp only: rx_match.simps(7) rx_match.simps(8) a b list.map) (simp add: same_text_def)
qed


lemma re_search_en1_longa:
  "re_search False rx_en1 (''Pages printed: '' @ replicate (Suc n) CHR ''9'')
     = Some [replicate (Suc n) CHR ''9'']"
proof -
  define R where "R = replicate (Suc n) CHR ''9''"
  define X where "X = Seq (Grp (Rep1 Digit)) (Lit [])"
  define M where "M = ''Pages printed: '' @ R"
  from rx_match_digitos [of False "Some CHR '' ''" n] obtain rest where
    x: "rx_match False X (Some CHR '' '', R, []) = (Some CHR ''9'', [], [R]) # rest"
    unfolding R_def X_def by blast
  have sp: "takeWhile (in_class Space) (CHR '' '' # R) = [CHR '' '']"
    by (simp add: R_def py_isspace_def)
  have l: "rx_match False (Lit ''Pages printed:'') (None, M, [])
      = [(Some CHR '':'', CHR '' '' # R, [])]"
    by (simp add: same_text_def M_def)
  have r: "rx_match False (Rep Space) (Some CHR '':'', CHR '' '' # R, [])
      = [(Some CHR '' '', R, []), (Some CHR '':'', CHR '' '' # R, [])]"
    by (simp only: rx_match.simps sp) (simp add: upt_rec)
  have "rx_match False (Seq (Lit ''Pages printed:'') (Seq (Rep Space) X)) (None, M, [])
      = (Some CHR ''9'', [], [R]) #
          (rest @ rx_match False X (Some CHR '':'', CHR '' '' # R, []))"
    by (simp only: rx_match.simps(7) l r x list.map concat.simps append.simps append_Nil2)
  moreover have "rx_en1 = Seq (Lit ''Pages printed:'') (Seq (Rep Space) X)"
    by (simp add: rx_en1_def seqs_def X_def)
  ultimately have h: "rx_match False rx_en1 (None, M, [])
      = (Some CHR ''9'', [], [R]) #
          (rest @ rx_match False X (Some CHR '':'', CHR '' '' # R, []))"
    by (simp only:)
  have "M \<noteq> []" by (simp add: M_def)
  then obtain c cs where m: "M = c # cs" by (cases M) auto
  from h have h': "rx_match False rx_en1 (None, c # cs, [])
      = (Some CHR ''9'', [], [R]) #
          (rest @ rx_match False X (Some CHR '':'', CHR '' '' # R, []))"
    by (simp only: m)
  have "re_search_de False rx_en1 None (c # cs) = Some [R]"
    by (simp only: re_search_de.simps h' list.case prod.case)
  then have "re_search False rx_en1 M = Some [R]"
    by (simp only: re_search_def m)
  then show ?thesis by (simp only: M_def R_def)
qed

lemma busca_int_en1_longa:
  "busca_int False rx_en1 mensagem_longa = Some (Inl ValueError)"
proof -
  define k :: nat where "k = 4300"
  have g: "replicate (Suc k) CHR ''9'' \<noteq> []"
    "list_all is_digit (replicate (Suc k) CHR ''9'')"
    by (simp_all add: list_all_iff is_digit_def del: replicate.simps)
  from py_int_digitos [OF g] have "py_int (replicate (Suc k) CHR ''9'') = None"
    by (simp add: int_max_str_digits_def k_def del: replicate.simps)
  then have "busca_int False rx_en1 (''Pages printed: '' @ replicate (Suc k) CHR ''9'')
      = Some (Inl ValueError)"
    by (simp only: busca_int_def re_search_en1_longa option.case list.case)
  moreover have "Suc k = 4301" by (simp add: k_def)
  ultimately show ?thesis by (simp only: mensagem_longa_def)
qed

lemma eh_portugues_longa: "\<not> eh_portugues mensagem_longa"
proof
  assume "eh_portugues mensagem_longa"
  then have "set ''pertencente a'' \<subseteq> set mensagem_longa \<or> set ''foi impresso'' \<subseteq> set mensagem_longa"
    unfolding eh_portugues_def using contem_set by blast
  then have "CHR ''c'' \<in> set mensagem_longa \<or> CHR ''f'' \<in> set mensagem_longa" by auto
  then show False by (simp add: mensagem_longa_def)
qed

lemma extrair_longa: "extrair_dados_evento (raw_exemplo mensagem_longa) = None"
proof -
  have m: "Message (raw_exemplo mensagem_longa) = Some mensagem_longa"
    by (simp add: raw_exemplo_def)
  have "primeiro_casamento (padroes_do_ramo mensagem_longa) mensagem_longa
      = Some (Inl ValueError)"
    using eh_portugues_longa busca_int_en1_longa by (simp add: padroes_do_ramo_def)
  with extrair_paginas [OF m] show ?thesis by simp
qed

text \<open>
  Claim C5, as amended. Every record the extraction produces has a page count in
  \<open>[1, 10000]\<close>. For a message \<open>m\<close>: when the first pattern of the language branch that
  matches gives a number out of that range, the record has the default page count 1;
  when no pattern of the branch matches, a generic pattern that has no match or a number
  out of range is passed over, the first generic pattern with a number in the range
  gives the page count, and the page count is the default 1 when every generic pattern
  is passed over. No record at all is produced exactly when \<^verbatim>\<open>int\<close> refuses the number
  of the pattern that is consulted (the first match of the branch, or a generic pattern
  reached before one with a number in the range); the message is then longer than 4300
  characters.
\<close>

theorem paginas_na_faixa:
  "(\<forall>d. extrair_dados_evento raw = Some d \<longrightarrow> 1 \<le> pages d \<and> pages d \<le> 10000) \<and>
   (\<forall>m. Message raw = Some m \<longrightarrow>
      (\<forall>v. primeiro_casamento (padroes_do_ramo m) m = Some (Inr v) \<and> (v < 1 \<or> 10000 < v) \<longrightarrow>
         (\<exists>d. extrair_dados_evento raw = Some d \<and> pages d = 1)) \<and>
      (primeiro_casamento (padroes_do_ramo m) m = None \<longrightarrow>
         ((\<forall>r\<in>set patterns. sem_valor r m) \<longrightarrow>
            (\<exists>d. extrair_dados_evento raw = Some d \<and> pages d = 1)) \<and>
         (\<forall>antes r depois g.
            patterns = antes @ r # depois \<and> (\<forall>q\<in>set antes. sem_valor q m) \<and>
            busca_int True r m = Some (Inr g) \<and> 1 \<le> g \<and> g \<le> 10000 \<longrightarrow>
            (\<exists>d. extrair_dados_evento raw = Some d \<and> pages d = g))) \<and>
      (extrair_dados_evento raw = None \<longleftrightarrow>
         primeiro_casamento (padroes_do_ramo m) m = Some (Inl ValueError) \<or>
         (primeiro_casamento (padroes_do_ramo m) m = None \<or>
          primeiro_casamento (padroes_do_ramo m) m = Some (Inr 1)) \<and>
         (\<exists>antes r depois.
            patterns = antes @ r # depois \<and> (\<forall>q\<in>set antes. sem_valor q m) \<and>
            busca_int True r m = Some (Inl ValueError))) \<and>
      (extrair_dados_evento raw = None \<longrightarrow> int_max_str_digits < length m))"
proof -
  have faixa: "1 \<le> pages d \<and> pages d \<le> 10000" if d: "extrair_dados_evento raw = Some d" for d
  proof -
    from d obtain m where m: "Message raw = Some m"
      by (auto simp: extrair_dados_evento_def split: option.splits)
    from extrair_paginas [OF m] d show ?thesis
      by (auto split: option.splits sum.splits if_splits dest: busca_generica_range)
  qed
  have resto: "(\<forall>v. primeiro_casamento (padroes_do_ramo m) m = Some (Inr v) \<and> (v < 1 \<or> 10000 < v) \<longrightarrow>
         (\<exists>d. extrair_dados_evento raw = Some d \<and> pages d = 1)) \<and>
      (primeiro_casamento (padroes_do_ramo m) m = None \<longrightarrow>
         ((\<forall>r\<in>set patterns. sem_valor r m) \<longrightarrow>
            (\<exists>d. extrair_dados_evento raw = Some d \<and> pages d = 1)) \<and>
         (\<forall>antes r depois g.
            patterns = antes @ r # depois \<and> (\<forall>q\<in>set antes. sem_valor q m) \<and>
            busca_int True r m = Some (Inr g) \<and> 1 \<le> g \<and> g \<le> 10000 \<longrightarrow>
            (\<exists>d. extrair_dados_evento raw = Some d \<and> pages d = g))) \<and>
      (extrair_dados_evento raw = None \<longleftrightarrow>
         primeiro_casamento (padroes_do_ramo m) m = Some (Inl ValueError) \<or>
         (primeiro_casamento (padroes_do_ramo m) m = None \<or>
          primeiro_casamento (padroes_do_ramo m) m = Some (Inr 1)) \<and>
         (\<exists>antes r depois.
            patterns = antes @ r # depois \<and> (\<forall>q\<in>set antes. sem_valor q m) \<and>
            busca_int True r m = Some (Inl ValueError))) \<and>
      (extrair_dados_evento raw = None \<longrightarrow> int_max_str_digits < length m)"
    if m: "Message raw = Some m" for m
  proof -
    note ep = extrair_paginas [OF m]
    have a: "\<exists>d. extrair_dados_evento raw = Some d \<and> pages d = 1"
      if "primeiro_casamento (padroes_do_ramo m) m = Some (Inr v)" "v < 1 \<or> 10000 < v" for v
      using ep that by auto
    have b: "\<exists>d. extrair_dados_evento raw = Some d \<and> pages d = 1"
      if "primeiro_casamento (padroes_do_ramo m) m = None" "\<forall>r\<in>set patterns. sem_valor r m"
    proof -
      from that(2) have "busca_generica patterns m = Inr None" by (simp add: busca_generica_none)
      with ep that(1) show ?thesis by simp
    qed
    have c: "\<exists>d. extrair_dados_evento raw = Some d \<and> pages d = g"
      if "primeiro_casamento (padroes_do_ramo m) m = None"
        "patterns = antes @ r # depois" "\<forall>q\<in>set antes. sem_valor q m"
        "busca_int True r m = Some (Inr g)" "1 \<le> g" "g \<le> 10000" for antes r depois g
    proof -
      from that(2-6) have "busca_generica patterns m = Inr (Some g)"
        unfolding busca_generica_some by blast
      with ep that(1) show ?thesis by simp
    qed
    have e1: "e = ValueError" if "primeiro_casamento (padroes_do_ramo m) m = Some (Inl e)" for e
      using that primeiro_casamento_erro [OF padroes_grupos(1)] by blast
    have e2: "e = ValueError" if "busca_generica patterns m = Inl e" for e
    proof -
      from that obtain antes r depois where ad: "patterns = antes @ r # depois"
        "busca_int True r m = Some (Inl e)"
        unfolding busca_generica_erro by blast
      have "r \<in> set (antes @ r # depois)" by simp
      then have "r \<in> set patterns" by (simp only: ad(1) [symmetric])
      with padroes_grupos(2) have "so_grupos_de_digitos r" by blast
      from busca_int_casos [OF this, of True m] ad(2) show ?thesis by simp
    qed
    have d: "extrair_dados_evento raw = None \<longleftrightarrow>
         primeiro_casamento (padroes_do_ramo m) m = Some (Inl ValueError) \<or>
         (primeiro_casamento (padroes_do_ramo m) m = None \<or>
          primeiro_casamento (padroes_do_ramo m) m = Some (Inr 1)) \<and>
         (\<exists>antes r depois.
            patterns = antes @ r # depois \<and> (\<forall>q\<in>set antes. sem_valor q m) \<and>
            busca_int True r m = Some (Inl ValueError))"
      unfolding busca_generica_erro [symmetric]
      using ep e1 e2 by (auto split: option.splits sum.splits if_splits)
    have e: "int_max_str_digits < length m" if "extrair_dados_evento raw = None"
      using extrair_curta [OF m] that by (cases "length m \<le> int_max_str_digits") auto
    from a b c d e show ?thesis by blast
  qed
  from faixa resto show ?thesis by blast
qed

theorem paginas_na_faixa_witness:
  "primeiro_casamento (padroes_do_ramo ''Pages printed: 20000'') ''Pages printed: 20000''
     = Some (Inr 20000) \<and>
   (\<exists>d. extrair_dados_evento (raw_exemplo ''Pages printed: 20000'') = Some d \<and> pages d = 1) \<and>
   primeiro_casamento (padroes_do_ramo ''no count'') ''no count'' = None \<and>
   list_all (\<lambda>r. sem_valor r ''no count'') patterns \<and>
   (\<exists>d. extrair_dados_evento (raw_exemplo ''no count'') = Some d \<and> pages d = 1) \<and>
   primeiro_casamento (padroes_do_ramo ''pages: 0 total: 5'') ''pages: 0 total: 5'' = None \<and>
   list_all (\<lambda>q. sem_valor q ''pages: 0 total: 5'') (take 2 patterns) \<and>
   busca_int True (patterns ! 2) ''pages: 0 total: 5'' = Some (Inr 5) \<and>
   (\<exists>d. extrair_dados_evento (raw_exemplo ''pages: 0 total: 5'') = Some d \<and> pages d = 5) \<and>
   primeiro_casamento (padroes_do_ramo mensagem_longa) mensagem_longa = Some (Inl ValueError) \<and>
   extrair_dados_evento (raw_exemplo mensagem_longa) = None \<and>
   extrair_dados_evento (raw_exemplo ''Pages printed: 250'') = Some (dados_exemplo 250) \<and>
   1 \<le> pages (dados_exemplo 250) \<and> pages (dados_exemplo 250) \<le> 10000"
proof -
  have m1: "Message (raw_exemplo ''Pages printed: 20000'') = Some ''Pages printed: 20000''"
    by (simp add: raw_exemplo_def)
  have f1: "primeiro_casamento (padroes_do_ramo ''Pages printed: 20000'') ''Pages printed: 20000''
     = Some (Inr 20000)"
    by code_simp
  note t1 = paginas_na_faixa [of "raw_exemplo ''Pages printed: 20000''", THEN conjunct2,
      rule_format, OF m1]
  from t1 [THEN conjunct1, rule_format, of 20000] f1
  have a: "\<exists>d. extrair_dados_evento (raw_exemplo ''Pages printed: 20000'') = Some d \<and> pages d = 1"
    by simp
  have m2: "Message (raw_exemplo ''no count'') = Some ''no count''"
    by (simp add: raw_exemplo_def)
  have f2: "primeiro_casamento (padroes_do_ramo ''no count'') ''no count'' = None"
    by code_simp
  have g2: "\<forall>r\<in>set patterns. sem_valor r ''no count''"
    by code_simp
  note t2 = paginas_na_faixa [of "raw_exemplo ''no count''", THEN conjunct2,
      rule_format, OF m2]
  from t2 [THEN conjunct2, THEN conjunct1, rule_format, OF f2, THEN conjunct1, rule_format, OF g2 [rule_format]]
  have b: "\<exists>d. extrair_dados_evento (raw_exemplo ''no count'') = Some d \<and> pages d = 1" .
  have m3: "Message (raw_exemplo ''pages: 0 total: 5'') = Some ''pages: 0 total: 5''"
    by (simp add: raw_exemplo_def)
  have f3: "primeiro_casamento (padroes_do_ramo ''pages: 0 total: 5'') ''pages: 0 total: 5'' = None"
    by code_simp
  have p3: "patterns = take 2 patterns @ patterns ! 2 # drop 3 patterns"
    by (simp add: patterns_def)
  have g3: "\<forall>q\<in>set (take 2 patterns). sem_valor q ''pages: 0 total: 5''"
    by code_simp
  have h3: "busca_int True (patterns ! 2) ''pages: 0 total: 5'' = Some (Inr 5)"
    by code_simp
  note t3 = paginas_na_faixa [of "raw_exemplo ''pages: 0 total: 5''", THEN conjunct2,
      rule_format, OF m3]
  from t3 [THEN conjunct2, THEN conjunct1, rule_format, OF f3, THEN conjunct2, rule_format,
      of "take 2 patterns" "patterns ! 2" "drop 3 patterns" 5] p3 g3 h3
  have c: "\<exists>d. extrair_dados_evento (raw_exemplo ''pages: 0 total: 5'') = Some d \<and> pages d = 5"
    by simp
  have m4: "Message (raw_exemplo mensagem_longa) = Some mensagem_longa"
    by (simp add: raw_exemplo_def)
  have f4: "primeiro_casamento (padroes_do_ramo mensagem_longa) mensagem_longa
      = Some (Inl ValueError)"
    using eh_portugues_longa busca_int_en1_longa by (simp add: padroes_do_ramo_def)
  note t4 = paginas_na_faixa [of "raw_exemplo mensagem_longa", THEN conjunct2,
      rule_format, OF m4]
  from t4 [THEN conjunct2, THEN conjunct2, THEN conjunct1] f4
  have d: "extrair_dados_evento (raw_exemplo mensagem_longa) = None" by simp
  have h5: "extrair_dados_evento (raw_exemplo ''Pages printed: 250'') = Some (dados_exemplo 250)"
    by code_simp
  from paginas_na_faixa [of "raw_exemplo ''Pages printed: 250''", THEN conjunct1, rule_format,
      OF h5]
  have e: "1 \<le> pages (dados_exemplo 250) \<and> pages (dados_exemplo 250) \<le> 10000" .
  from f1 a f2 g2 b f3 g3 h3 c f4 d h5 e show ?thesis by (simp only: list_all_iff)
qed

text \<open>
  Claim C5 as stated fails for a count that \<^verbatim>\<open>int\<close> cannot parse: in
  \<open>mensagem_longa\<close> the pattern \<^verbatim>\<open>Pages printed:\s*(\d+)\<close> matches a run of 4301
  digits, \<^verbatim>\<open>int\<close> raises, and the extraction gives no record instead of a record with
  the default page count 1.
\<close>

theorem paginas_sem_registro:
  "re_search False rx_en1 mensagem_longa = Some [replicate 4301 CHR ''9''] \<and>
   busca_int False rx_en1 mensagem_longa = Some (Inl ValueError) \<and>
   extrair_dados_evento (raw_exemplo mensagem_longa) = None"
proof -
  define k :: nat where "k = 4300"
  have k: "Suc k = 4301" by (simp add: k_def)
  have "re_search False rx_en1 (''Pages printed: '' @ replicate (Suc k) CHR ''9'')
     = Some [replicate (Suc k) CHR ''9'']"
    by (rule re_search_en1_longa)
  then have "re_search False rx_en1 mensagem_longa = Some [replicate 4301 CHR ''9'']"
    by (simp only: k mensagem_longa_def)
  with busca_int_en1_longa extrair_longa show ?thesis by simp
qed

text \<open>
  The example scenario of the specification: the record extracted from the message of
  event 42.
\<close>

lemma exemplo_da_especificacao:
  "extrair_dados_evento
     \<lparr>RecordId = 42, TimeCreated = ''2024-01-01 10:00:00'', MachineName = ''PC1'',
      Message = Some mensagem_da_spec\<rparr>
   = Some \<lparr>record_id = 42, date = ''2024-01-01 10:00:00'', user = ''alice'', machine = ''PC1'',
           pages = 7, document = ''report.docx'', printer = ''HP-LaserJet''\<rparr>"
  by code_simp

text \<open>
  Claim C6, as amended. The page count is decided by the first pattern of the language
  branch that matches, in the order (a), (b), (c) and, in the branch that is not
  Portuguese, (d): when its number \<open>v\<close> is not 1, the page count is \<open>v\<close> if
  \<open>v\<close> lies in \<open>[1, 10000]\<close> and 1 otherwise, and no later pattern is tried; when
  \<^verbatim>\<open>int\<close> refuses its number (more than 4300 digits), there is no record. When no
  pattern of the branch matches, the generic patterns (e) are tried in order; one with
  no match or a number out of range is passed over; the first one not passed over gives
  the page count, if its number lies in \<open>[1, 10000]\<close>, or no record, if \<^verbatim>\<open>int\<close>
  refuses its number; the page count is 1 when all are passed over.
\<close>

theorem paginas_primeiro_casamento:
  assumes "Message raw = Some m"
  shows "(\<forall>v. primeiro_casamento (padroes_do_ramo m) m = Some (Inr v) \<and> v \<noteq> 1 \<longrightarrow>
        (\<exists>d. extrair_dados_evento raw = Some d \<and>
             pages d = (if 1 \<le> v \<and> v \<le> 10000 then v else 1))) \<and>
    (\<forall>e. primeiro_casamento (padroes_do_ramo m) m = Some (Inl e) \<longrightarrow>
        extrair_dados_evento raw = None) \<and>
    (primeiro_casamento (padroes_do_ramo m) m = None \<longrightarrow>
       (\<forall>antes r depois.
          patterns = antes @ r # depois \<and> (\<forall>q\<in>set antes. sem_valor q m) \<longrightarrow>
          (\<forall>g. busca_int True r m = Some (Inr g) \<and> 1 \<le> g \<and> g \<le> 10000 \<longrightarrow>
             (\<exists>d. extrair_dados_evento raw = Some d \<and> pages d = g)) \<and>
          (\<forall>e. busca_int True r m = Some (Inl e) \<longrightarrow> extrair_dados_evento raw = None)) \<and>
       ((\<forall>q\<in>set patterns. sem_valor q m) \<longrightarrow>
          (\<exists>d. extrair_dados_evento raw = Some d \<and> pages d = 1)))"
proof -
  note ep = extrair_paginas [OF assms]
  have a: "\<exists>d. extrair_dados_evento raw = Some d \<and>
             pages d = (if 1 \<le> v \<and> v \<le> 10000 then v else 1)"
    if "primeiro_casamento (padroes_do_ramo m) m = Some (Inr v)" "v \<noteq> 1" for v
    using ep that by auto
  have b: "extrair_dados_evento raw = None"
    if "primeiro_casamento (padroes_do_ramo m) m = Some (Inl e)" for e
    using ep that by simp
  have c: "\<exists>d. extrair_dados_evento raw = Some d \<and> pages d = g"
    if "primeiro_casamento (padroes_do_ramo m) m = None"
      "patterns = antes @ r # depois" "\<forall>q\<in>set antes. sem_valor q m"
      "busca_int True r m = Some (Inr g)" "1 \<le> g" "g \<le> 10000" for antes r depois g
  proof -
    from that(2-6) have "busca_generica patterns m = Inr (Some g)"
      unfolding busca_generica_some by blast
    with ep that(1) show ?thesis by simp
  qed
  have d: "extrair_dados_evento raw = None"
    if "primeiro_casamento (padroes_do_ramo m) m = None"
      "patterns = antes @ r # depois" "\<forall>q\<in>set antes. sem_valor q m"
      "busca_int True r m = Some (Inl e)" for antes r depois e
  proof -
    from that(2-4) have "busca_generica patterns m = Inl e"
      unfolding busca_generica_erro by blast
    with ep that(1) show ?thesis by simp
  qed
  have e: "\<exists>d. extrair_dados_evento raw = Some d \<and> pages d = 1"
    if "primeiro_casamento (padroes_do_ramo m) m = None" "\<forall>r\<in>set patterns. sem_valor r m"
  proof -
    from that(2) have "busca_generica patterns m = Inr None" by (simp add: busca_generica_none)
    with ep that(1) show ?thesis by simp
  qed
  from a b c d e show ?thesis by blast
qed

theorem paginas_primeiro_casamento_witness:
  "primeiro_casamento (padroes_do_ramo ''Pages printed: 7'') ''Pages printed: 7''
     = Some (Inr 7) \<and>
   (\<exists>d. extrair_dados_evento (raw_exemplo ''Pages printed: 7'') = Some d \<and> pages d = 7) \<and>
   primeiro_casamento (padroes_do_ramo ''Pages printed: 0. 5 pages'') ''Pages printed: 0. 5 pages''
     = Some (Inr 0) \<and>
   (\<exists>d. extrair_dados_evento (raw_exemplo ''Pages printed: 0. 5 pages'') = Some d \<and> pages d = 1) \<and>
   primeiro_casamento (padroes_do_ramo ''total: 12'') ''total: 12'' = None \<and>
   list_all (\<lambda>q. sem_valor q ''total: 12'') (take 2 patterns) \<and>
   busca_int True (patterns ! 2) ''total: 12'' = Some (Inr 12) \<and>
   (\<exists>d. extrair_dados_evento (raw_exemplo ''total: 12'') = Some d \<and> pages d = 12) \<and>
   primeiro_casamento (padroes_do_ramo ''total: 0'') ''total: 0'' = None \<and>
   list_all (\<lambda>q. sem_valor q ''total: 0'') patterns \<and>
   (\<exists>d. extrair_dados_evento (raw_exemplo ''total: 0'') = Some d \<and> pages d = 1)"
proof -
  have m1: "Message (raw_exemplo ''Pages printed: 7'') = Some ''Pages printed: 7''"
    by (simp add: raw_exemplo_def)
  have f1: "primeiro_casamento (padroes_do_ramo ''Pages printed: 7'') ''Pages printed: 7''
      = Some (Inr 7)"
    by code_simp
  from paginas_primeiro_casamento [OF m1, THEN conjunct1, rule_format, of 7] f1
  have a: "\<exists>d. extrair_dados_evento (raw_exemplo ''Pages printed: 7'') = Some d \<and> pages d = 7"
    by simp
  have m2: "Message (raw_exemplo ''Pages printed: 0. 5 pages'') = Some ''Pages printed: 0. 5 pages''"
    by (simp add: raw_exemplo_def)
  have f2: "primeiro_casamento (padroes_do_ramo ''Pages printed: 0. 5 pages'')
      ''Pages printed: 0. 5 pages'' = Some (Inr 0)"
    by code_simp
  from paginas_primeiro_casamento [OF m2, THEN conjunct1, rule_format, of 0] f2
  have b: "\<exists>d. extrair_dados_evento (raw_exemplo ''Pages printed: 0. 5 pages'') = Some d
      \<and> pages d = 1"
    by simp
  have m3: "Message (raw_exemplo ''total: 12'') = Some ''total: 12''"
    by (simp add: raw_exemplo_def)
  have f3: "primeiro_casamento (padroes_do_ramo ''total: 12'') ''total: 12'' = None"
    by code_simp
  have p3: "patterns = take 2 patterns @ patterns ! 2 # drop 3 patterns"
    by (simp add: patterns_def)
  have g3: "\<forall>q\<in>set (take 2 patterns). sem_valor q ''total: 12''"
    by code_simp
  have h3: "busca_int True (patterns ! 2) ''total: 12'' = Some (Inr 12)"
    by code_simp
  from paginas_primeiro_casamento [OF m3, THEN conjunct2, THEN conjunct2, rule_format, OF f3,
      THEN conjunct1, rule_format, of "take 2 patterns" "patterns ! 2" "drop 3 patterns",
      THEN conjunct1, rule_format, of 12] p3 g3 h3
  have c: "\<exists>d. extrair_dados_evento (raw_exemplo ''total: 12'') = Some d \<and> pages d = 12"
    by simp
  have m4: "Message (raw_exemplo ''total: 0'') = Some ''total: 0''"
    by (simp add: raw_exemplo_def)
  have f4: "primeiro_casamento (padroes_do_ramo ''total: 0'') ''total: 0'' = None"
    by code_simp
  have g4: "\<forall>q\<in>set patterns. sem_valor q ''total: 0''"
    by code_simp
  from paginas_primeiro_casamento [OF m4, THEN conjunct2, THEN conjunct2, rule_format, OF f4,
      THEN conjunct2, rule_format, OF g4 [rule_format]]
  have d: "\<exists>d. extrair_dados_evento (raw_exemplo ''total: 0'') = Some d \<and> pages d = 1" .
  from f1 a f2 b f3 g3 h3 c f4 g4 d show ?thesis by (simp only: list_all_iff)
qed

text \<open>
  Claim C6 as stated fails: in \<^verbatim>\<open>Pages printed: 0. 5 pages\<close> pattern (a) matches the
  number 0, which is out of range; the specification's rule goes on to pattern (c) and
  finds 5, the code stops at the first match and ends with the default 1.
\<close>

theorem paginas_fora_da_faixa_encerra_busca:
  "extrair_dados_evento (raw_exemplo ''Pages printed: 0. 5 pages'') = Some (dados_exemplo 1) \<and>
   paginas_spec ''Pages printed: 0. 5 pages'' = 5"
proof -
  have a: "extrair_dados_evento (raw_exemplo ''Pages printed: 0. 5 pages'') = Some (dados_exemplo 1)"
    by code_simp
  have b: "paginas_spec ''Pages printed: 0. 5 pages'' = 5"
    by code_simp
  from a b show ?thesis by simp
qed


subsection \<open>The sender\<close>

lemma so_envio_refl: "so_envio s s"
  by (simp add: so_envio_def)

lemma so_envio_trans: "so_envio s s1 \<Longrightarrow> so_envio s1 s2 \<Longrightarrow> so_envio s s2"
  by (simp add: so_envio_def)

lemma tentativas_Suc:
  "tentativas http ev n0 (Suc (Suc k)) = Post ev (http n0) # Sleep 5 # tentativas http ev (Suc n0) (Suc k)"
proof -
  have "[0 ..< Suc (Suc k)] = 0 # map Suc [0 ..< Suc k]"
    by (simp only: map_Suc_upt upt_conv_Cons [of 0 "Suc (Suc k)"])
  then have "map (\<lambda>i. Post ev (http (n0 + i))) [0 ..< Suc (Suc k)]
      = Post ev (http n0) # map (\<lambda>i. Post ev (http (Suc n0 + i))) [0 ..< Suc k]"
    by (simp add: comp_def del: upt_Suc)
  moreover have "map (\<lambda>i. Post ev (http (Suc n0 + i))) [0 ..< Suc k]
      = Post ev (http (Suc n0)) # map (\<lambda>i. Post ev (http (Suc n0 + i))) [1 ..< Suc k]"
    by (simp add: upt_conv_Cons del: upt_Suc)
  ultimately show ?thesis
    by (simp add: tentativas_def del: upt_Suc)
qed

lemma tentativas_1: "tentativas http ev n0 (Suc 0) = [Post ev (http n0)]"
  by (simp add: tentativas_def)

lemma tentativas_0: "tentativas http ev n0 0 = []"
  by (simp add: tentativas_def)

lemma send_events_loop_trace:
  "\<exists>k. int (attempt + k) \<le> max m (int attempt) \<and>
        (int attempt < m \<longrightarrow> 0 < k) \<and>
        so_envio s (snd (send_events_loop http ev m attempt s)) \<and>
        n_posts (snd (send_events_loop http ev m attempt s)) = n_posts s + k \<and>
        historico (snd (send_events_loop http ev m attempt s))
          = historico s @ tentativas http ev (n_posts s) k \<and>
        (\<forall>i. Suc i < k \<longrightarrow> \<not> sucesso (http (n_posts s + i))) \<and>
        (fst (send_events_loop http ev m attempt s)
           \<longleftrightarrow> 0 < k \<and> sucesso (http (n_posts s + k - 1))) \<and>
        (\<not> fst (send_events_loop http ev m attempt s) \<longrightarrow> int (attempt + k) = max m (int attempt))"
proof (induction http ev m attempt s rule: send_events_loop.induct)
  case (1 http ev m attempt s)
  show ?case
  proof (cases "int attempt < m")
    case False
    then show ?thesis
      by (subst (1 2 3 4 5) send_events_loop.simps)
        (auto simp: so_envio_refl tentativas_0 intro!: exI [of _ 0])
  next
    case True
    note lt = this
    define r where "r = http (n_posts s)"
    define s1 where "s1 = s\<lparr>n_posts := n_posts s + 1, historico := historico s @ [Post ev r]\<rparr>"
    have e1: "so_envio s s1" by (simp add: so_envio_def s1_def)
    show ?thesis
    proof (cases "sucesso r")
      case True
      have res: "send_events_loop http ev m attempt s = (True, s1)"
        using lt True by (subst send_events_loop.simps) (simp add: Let_def r_def s1_def)
      show ?thesis
        unfolding res using lt True e1
        by (intro exI [of _ 1]) (auto simp: tentativas_1 s1_def r_def)
    next
      case False
      define s2 where "s2 = (if int attempt < m - 1 then s1\<lparr>historico := historico s1 @ [Sleep 5]\<rparr> else s1)"
      have e2: "so_envio s s2" by (simp add: so_envio_def s1_def s2_def)
      have res: "send_events_loop http ev m attempt s = send_events_loop http ev m (attempt + 1) s2"
        using lt False by (subst send_events_loop.simps) (simp add: Let_def r_def s1_def s2_def)
      have nf: "\<not> sucesso (http (n_posts s))" using False by (simp add: r_def)
      from "1.IH" [OF lt refl refl nf refl]
      have "\<exists>k. int (attempt + 1 + k) \<le> max m (int (attempt + 1)) \<and>
        (int (attempt + 1) < m \<longrightarrow> 0 < k) \<and>
        so_envio s2 (snd (send_events_loop http ev m (attempt + 1) s2)) \<and>
        n_posts (snd (send_events_loop http ev m (attempt + 1) s2)) = n_posts s2 + k \<and>
        historico (snd (send_events_loop http ev m (attempt + 1) s2))
          = historico s2 @ tentativas http ev (n_posts s2) k \<and>
        (\<forall>i. Suc i < k \<longrightarrow> \<not> sucesso (http (n_posts s2 + i))) \<and>
        (fst (send_events_loop http ev m (attempt + 1) s2)
           \<longleftrightarrow> 0 < k \<and> sucesso (http (n_posts s2 + k - 1))) \<and>
        (\<not> fst (send_events_loop http ev m (attempt + 1) s2) \<longrightarrow> int (attempt + 1 + k) = max m (int (attempt + 1)))"
        unfolding s2_def s1_def r_def by (simp add: Let_def)
      then obtain k where k:
        "int (attempt + 1 + k) \<le> max m (int (attempt + 1))"
        "int (attempt + 1) < m \<longrightarrow> 0 < k"
        "so_envio s2 (snd (send_events_loop http ev m (attempt + 1) s2))"
        "n_posts (snd (send_events_loop http ev m (attempt + 1) s2)) = n_posts s2 + k"
        "historico (snd (send_events_loop http ev m (attempt + 1) s2))
          = historico s2 @ tentativas http ev (n_posts s2) k"
        "\<forall>i. Suc i < k \<longrightarrow> \<not> sucesso (http (n_posts s2 + i))"
        "fst (send_events_loop http ev m (attempt + 1) s2)
           \<longleftrightarrow> 0 < k \<and> sucesso (http (n_posts s2 + k - 1))"
        "\<not> fst (send_events_loop http ev m (attempt + 1) s2) \<longrightarrow> int (attempt + 1 + k) = max m (int (attempt + 1))"
        by blast
      have n2: "n_posts s2 = Suc (n_posts s)" by (simp add: s2_def s1_def)
      have hist: "historico s2 @ tentativas http ev (n_posts s2) k
          = historico s @ tentativas http ev (n_posts s) (Suc k)"
      proof (cases k)
        case 0
        with k(2) have "\<not> int attempt < m - 1" by auto
        then show ?thesis using 0 by (simp add: s2_def s1_def tentativas_0 tentativas_1 r_def)
      next
        case (Suc j)
        with k(1) lt have "int attempt < m - 1" by auto
        then show ?thesis using Suc by (simp add: s2_def s1_def tentativas_Suc r_def n2)
      qed
      have fails: "\<forall>i. Suc i < Suc k \<longrightarrow> \<not> sucesso (http (n_posts s + i))"
      proof (intro allI impI)
        fix i assume "Suc i < Suc k"
        show "\<not> sucesso (http (n_posts s + i))"
        proof (cases i)
          case 0
          then show ?thesis using False by (simp add: r_def)
        next
          case (Suc j)
          with \<open>Suc i < Suc k\<close> k(6) n2 show ?thesis by auto
        qed
      qed
      have okk: "fst (send_events_loop http ev m (attempt + 1) s2)
           \<longleftrightarrow> 0 < Suc k \<and> sucesso (http (n_posts s + Suc k - 1))"
      proof (cases k)
        case 0
        then show ?thesis using k(7) False by (simp add: r_def)
      next
        case (Suc j)
        then show ?thesis using k(7) n2 by simp
      qed
      show ?thesis
        unfolding res
        apply (rule exI [of _ "Suc k"])
        using k(1,4,5,8) lt e2 k(3) hist fails okk n2
        by (auto intro: so_envio_trans)
    qed
  qed
qed


lemma send_events_so_envio: "so_envio s (snd (send_events http s events))"
  using send_events_loop_trace [of 0 "max_retries s" s http events]
  by (auto simp: send_events_def so_envio_refl)

lemma send_events_core:
  assumes "events \<noteq> []" and "\<forall>i. status_200 (http i) \<longrightarrow> sucesso (http i)"
  shows "\<exists>k \<le> nat (max_retries s).
    (fst (send_events http s events)
       \<longleftrightarrow> (\<exists>j < nat (max_retries s). status_200 (http (n_posts s + j)))) \<and>
    historico (snd (send_events http s events)) = historico s @ tentativas http events (n_posts s) k \<and>
    n_posts (snd (send_events http s events)) = n_posts s + k \<and>
    (fst (send_events http s events) \<longrightarrow> 0 < k \<and> status_200 (http (n_posts s + k - 1))) \<and>
    (\<not> fst (send_events http s events) \<longrightarrow> k = nat (max_retries s)) \<and>
    so_envio s (snd (send_events http s events))"
proof -
  have st: "sucesso (http i) \<longleftrightarrow> status_200 (http i)" for i
    using assms(2) [rule_format, of i]
    by (cases "http i") (auto simp: sucesso_def status_200_def)
  let ?r = "send_events_loop http events (max_retries s) 0 s"
  from send_events_loop_trace [of 0 "max_retries s" s http events]
  obtain k where k0:
    "int (0 + k) \<le> max (max_retries s) (int 0)"
    "so_envio s (snd ?r)"
    "n_posts (snd ?r) = n_posts s + k"
    "historico (snd ?r) = historico s @ tentativas http events (n_posts s) k"
    "\<forall>i. Suc i < k \<longrightarrow> \<not> sucesso (http (n_posts s + i))"
    "fst ?r \<longleftrightarrow> 0 < k \<and> sucesso (http (n_posts s + k - 1))"
    "\<not> fst ?r \<longrightarrow> int (0 + k) = max (max_retries s) (int 0)"
    by blast
  have k: "int k \<le> max (max_retries s) 0" "\<not> fst ?r \<longrightarrow> int k = max (max_retries s) 0"
    using k0(1,7) by simp_all
  have kle: "k \<le> nat (max_retries s)" using k(1) by linarith
  have iff: "fst ?r \<longleftrightarrow> (\<exists>j < nat (max_retries s). status_200 (http (n_posts s + j)))"
  proof
    assume "fst ?r"
    with k0(6) have "0 < k" "sucesso (http (n_posts s + (k - 1)))" by auto
    then have "k - 1 < nat (max_retries s)" "status_200 (http (n_posts s + (k - 1)))"
      using kle st by auto
    then show "\<exists>j < nat (max_retries s). status_200 (http (n_posts s + j))" by blast
  next
    assume "\<exists>j < nat (max_retries s). status_200 (http (n_posts s + j))"
    then obtain j where j: "j < nat (max_retries s)" "sucesso (http (n_posts s + j))"
      using st by auto
    show "fst ?r"
    proof (rule ccontr)
      assume nf: "\<not> fst ?r"
      with k(2) have keq: "k = nat (max_retries s)" by linarith
      with j(1) have "Suc j < k \<or> j = k - 1" by linarith
      then show False
      proof
        assume "Suc j < k" with k0(5) j(2) show False by blast
      next
        assume "j = k - 1"
        with j keq have "0 < k" "sucesso (http (n_posts s + k - 1))" by auto
        with k0(6) nf show False by blast
      qed
    qed
  qed
  have last: "fst ?r \<longrightarrow> 0 < k \<and> status_200 (http (n_posts s + k - 1))"
    using k0(6) st by auto
  have full: "\<not> fst ?r \<longrightarrow> k = nat (max_retries s)" using k(2) by linarith
  have eq: "send_events http s events = ?r" using assms(1) by (simp add: send_events_def)
  show ?thesis
    unfolding eq
    apply (rule exI [of _ k])
    using kle iff k0(2,3,4) last full by simp
qed


text \<open>
  Claim C7, as amended. For a batch that is not empty and a server whose responses with
  status 200 carry a body that decodes, \<^verbatim>\<open>send_events\<close> returns success exactly when one
  of the at most \<open>max_retries\<close> attempts it may make returns status 200; every other
  status and every network error is a failed attempt. It makes \<open>k \<le> max_retries\<close>
  attempts, with a pause of five seconds between two attempts and none after the last
  (\<open>tentativas\<close>); a success ends the attempts, a failure means all \<open>max_retries\<close>
  attempts were made. The call changes nothing of the monitor but the request counter
  and the history, so the next batch again has \<open>max_retries\<close> attempts of its own.
\<close>

theorem send_events_retries:
  assumes "events \<noteq> []" and "\<forall>i. status_200 (http i) \<longrightarrow> sucesso (http i)"
  shows "\<exists>k \<le> nat (max_retries s).
    (fst (send_events http s events)
       \<longleftrightarrow> (\<exists>j < nat (max_retries s). status_200 (http (n_posts s + j)))) \<and>
    historico (snd (send_events http s events)) = historico s @ tentativas http events (n_posts s) k \<and>
    n_posts (snd (send_events http s events)) = n_posts s + k \<and>
    (fst (send_events http s events) \<longrightarrow> 0 < k \<and> status_200 (http (n_posts s + k - 1))) \<and>
    (\<not> fst (send_events http s events) \<longrightarrow> k = nat (max_retries s)) \<and>
    so_envio s (snd (send_events http s events)) \<and>
    (\<forall>events2. events2 \<noteq> [] \<longrightarrow>
       (fst (send_events http (snd (send_events http s events)) events2)
          \<longleftrightarrow> (\<exists>j < nat (max_retries s).
                 status_200 (http (n_posts (snd (send_events http s events)) + j)))))"
proof -
  let ?s1 = "snd (send_events http s events)"
  from send_events_core [OF assms, of s] obtain k where k:
    "k \<le> nat (max_retries s)"
    "fst (send_events http s events)
       \<longleftrightarrow> (\<exists>j < nat (max_retries s). status_200 (http (n_posts s + j)))"
    "historico ?s1 = historico s @ tentativas http events (n_posts s) k"
    "n_posts ?s1 = n_posts s + k"
    "fst (send_events http s events) \<longrightarrow> 0 < k \<and> status_200 (http (n_posts s + k - 1))"
    "\<not> fst (send_events http s events) \<longrightarrow> k = nat (max_retries s)"
    "so_envio s ?s1"
    by blast
  have m1: "max_retries ?s1 = max_retries s" using k(7) by (simp add: so_envio_def)
  have next_batch: "fst (send_events http ?s1 events2)
          \<longleftrightarrow> (\<exists>j < nat (max_retries s). status_200 (http (n_posts ?s1 + j)))"
    if "events2 \<noteq> []" for events2
    using send_events_core [OF that assms(2), of ?s1] unfolding m1 by blast
  show ?thesis
    apply (rule exI [of _ k])
    using k next_batch by simp
qed

lemma monitor_exemplo_fields:
  "max_retries monitor_exemplo = 3" "batch_size monitor_exemplo = 50"
  "machine_name monitor_exemplo = ''PC1''" "eventos_processados monitor_exemplo = {}"
  "highest_record_id monitor_exemplo = 0" "arquivo monitor_exemplo = None"
  "n_posts monitor_exemplo = 0" "historico monitor_exemplo = []"
  "process_all_on_start monitor_exemplo"
  by (simp_all add: monitor_exemplo_def init_def carregar_eventos_processados_def)

theorem send_events_retries_witness:
  "fst (send_events (\<lambda>n. if n < 2 then Status 500 True else Status 200 True)
         monitor_exemplo [carga_exemplo]) \<and>
   \<not> fst (send_events (\<lambda>n. Timeout) monitor_exemplo [carga_exemplo]) \<and>
   historico (snd (send_events (\<lambda>n. Timeout) monitor_exemplo [carga_exemplo]))
     = [Post [carga_exemplo] Timeout, Sleep 5, Post [carga_exemplo] Timeout, Sleep 5,
        Post [carga_exemplo] Timeout]"
proof -
  let ?h = "\<lambda>n::nat. if n < 2 then Status 500 True else Status 200 True"
  have ne: "[carga_exemplo] \<noteq> []" by simp
  have w1: "\<forall>i. status_200 (?h i) \<longrightarrow> sucesso (?h i)"
    by (simp add: status_200_def sucesso_def)
  have w2: "\<forall>i. status_200 ((\<lambda>n. Timeout) i) \<longrightarrow> sucesso ((\<lambda>n. Timeout) i)"
    by (simp add: status_200_def)
  have "status_200 (?h (n_posts monitor_exemplo + 2))" "(2::nat) < nat (max_retries monitor_exemplo)"
    by (simp_all add: status_200_def monitor_exemplo_fields)
  with send_events_retries [OF ne w1, of monitor_exemplo]
  have a: "fst (send_events ?h monitor_exemplo [carga_exemplo])" by blast
  from send_events_retries [OF ne w2, of monitor_exemplo]
  obtain k where k: "fst (send_events (\<lambda>n. Timeout) monitor_exemplo [carga_exemplo])
       \<longleftrightarrow> (\<exists>j < nat (max_retries monitor_exemplo). status_200 Timeout)"
    "historico (snd (send_events (\<lambda>n. Timeout) monitor_exemplo [carga_exemplo]))
       = historico monitor_exemplo @ tentativas (\<lambda>n. Timeout) [carga_exemplo] (n_posts monitor_exemplo) k"
    "\<not> fst (send_events (\<lambda>n. Timeout) monitor_exemplo [carga_exemplo])
       \<longrightarrow> k = nat (max_retries monitor_exemplo)"
    by blast
  from k(1) have b: "\<not> fst (send_events (\<lambda>n. Timeout) monitor_exemplo [carga_exemplo])"
    by (simp add: status_200_def)
  with k(3) have "k = 3" by (simp add: monitor_exemplo_fields)
  moreover have "tentativas (\<lambda>n. Timeout) [carga_exemplo] 0 3
     = [Post [carga_exemplo] Timeout, Sleep 5, Post [carga_exemplo] Timeout, Sleep 5,
        Post [carga_exemplo] Timeout]"
    by (simp add: tentativas_def upt_rec)
  ultimately have c: "historico (snd (send_events (\<lambda>n. Timeout) monitor_exemplo [carga_exemplo]))
     = [Post [carga_exemplo] Timeout, Sleep 5, Post [carga_exemplo] Timeout, Sleep 5,
        Post [carga_exemplo] Timeout]"
    using k(2) by (simp add: monitor_exemplo_fields)
  from a b c show ?thesis by blast
qed

text \<open>
  Claim C7 as stated fails for the empty batch: \<^verbatim>\<open>send_events\<close> returns success
  at once, without a request, so without any attempt that returned status 200.
\<close>

theorem send_events_empty_batch:
  "fst (send_events (\<lambda>n. ConnectionError) monitor_exemplo []) \<and>
   n_posts (snd (send_events (\<lambda>n. ConnectionError) monitor_exemplo [])) = 0"
  by (simp add: send_events_def monitor_exemplo_fields)

lemma entre_set: "set (entre sep xs) \<subseteq> insert sep (set xs)"
  by (induction sep xs rule: entre.induct) auto

lemma postadas_append: "postadas (a @ b) = postadas a \<union> postadas b"
  by (simp add: postadas_def)

lemma postadas_tentativas: "postadas (tentativas http ev n k) \<subseteq> set ev"
proof -
  have "set (tentativas http ev n k) \<subseteq> insert (Sleep 5) (set (map (\<lambda>i. Post ev (http (n + i))) [0 ..< k]))"
    unfolding tentativas_def by (rule entre_set)
  then have "\<forall>a \<in> set (tentativas http ev n k). set (cargas_de a) \<subseteq> set ev" by auto
  then show ?thesis by (auto simp: postadas_def)
qed

lemma send_events_postadas:
  "postadas (historico (snd (send_events http s ev))) \<subseteq> postadas (historico s) \<union> set ev"
proof (cases "ev = []")
  case True
  then show ?thesis by (simp add: send_events_def)
next
  case False
  from send_events_loop_trace [of 0 "max_retries s" s http ev]
  obtain k where "historico (snd (send_events_loop http ev (max_retries s) 0 s))
          = historico s @ tentativas http ev (n_posts s) k" by blast
  with False show ?thesis
    using postadas_tentativas [of http ev "n_posts s" k]
    by (auto simp: send_events_def postadas_append)
qed

lemma postadas_sleep: "postadas (h @ [Sleep n]) = postadas h"
  by (simp add: postadas_def)

lemma lotes_loop_frame:
  "so_envio (fst st) (fst (lotes_loop http evs bs i st)) \<and>
   postadas (historico (fst (lotes_loop http evs bs i st)))
     \<subseteq> postadas (historico (fst st)) \<union> set evs"
proof (induction http evs bs i st rule: lotes_loop.induct)
  case (1 http evs bs i st)
  show ?case
  proof (cases "i < length evs \<and> 0 < bs")
    case False
    have "lotes_loop http evs bs i st = st"
      by (subst lotes_loop.simps) (simp only: False if_False)
    then show ?thesis by (simp add: so_envio_refl)
  next
    case True
    obtain s f where st: "st = (s, f)" by (cases st)
    define batch where "batch = take bs (drop i evs)"
    define res where "res = send_events http s batch"
    define f' where "f' = (if fst res then f else f @ [i])"
    define s' where "s' = (if i + bs < length evs
                        then (snd res)\<lparr>historico := historico (snd res) @ [Sleep 1]\<rparr>
                        else snd res)"
    have step: "lotes_loop http evs bs i st = lotes_loop http evs bs (i + bs) (s', f')"
      using True by (subst lotes_loop.simps) (simp add: st Let_def batch_def res_def f'_def s'_def)
    have ih: "so_envio s' (fst (lotes_loop http evs bs (i + bs) (s', f'))) \<and>
      postadas (historico (fst (lotes_loop http evs bs (i + bs) (s', f'))))
        \<subseteq> postadas (historico s') \<union> set evs"
      using "1.IH" [OF True st [symmetric] batch_def res_def f'_def s'_def] by simp
    have e1: "so_envio s (snd res)" unfolding res_def by (rule send_events_so_envio)
    have e2: "so_envio s s'" using e1 by (simp add: s'_def so_envio_def)
    have "set batch \<subseteq> set evs" unfolding batch_def
      by (meson set_take_subset set_drop_subset subset_trans)
    with send_events_postadas [of http s batch]
    have p1: "postadas (historico (snd res)) \<subseteq> postadas (historico s) \<union> set evs"
      unfolding res_def by blast
    have p2: "postadas (historico s') \<subseteq> postadas (historico s) \<union> set evs"
      using p1 by (simp add: s'_def postadas_sleep)
    show ?thesis
      unfolding step using ih e2 p2 st by (auto intro: so_envio_trans)
  qed
qed

lemma send_events_batch_frame:
  assumes "send_events_batch http s events = Inr (ok, s1)"
  shows "so_envio s s1 \<and>
    postadas (historico s1) \<subseteq> postadas (historico s) \<union> sem_record_id ` set events"
proof -
  have "so_envio s s1 \<and> postadas (historico s1) \<subseteq> postadas (historico s) \<union> set (map sem_record_id events)"
    using assms lotes_loop_frame [of "(s, [])" http "map sem_record_id events" "nat (batch_size s)" 0]
    by (auto simp: send_events_batch_def so_envio_refl split: if_splits prod.splits)
  then show ?thesis by simp
qed


text \<open>
  What a successful return means on the wire. When \<^verbatim>\<open>send_events\<close> returns true, the
  history holds a request carrying exactly the given payloads that the server answered
  with status 200 and a body that parses; when \<^verbatim>\<open>send_events_batch\<close> returns true
  (with a positive batch size), every record of the list is in such a request.
\<close>

lemma tentativas_set:
  "a \<in> set (tentativas http ev n k) \<Longrightarrow> a = Sleep 5 \<or> (\<exists>r. a = Post ev r)"
  using entre_set [of "Sleep 5" "map (\<lambda>i. Post ev (http (n + i))) [0 ..< k]"]
  by (auto simp: tentativas_def)

lemma send_events_hist:
  "\<exists>h. historico (snd (send_events http s ev)) = historico s @ h \<and>
       (\<forall>a \<in> set h. a = Sleep 5 \<or> (\<exists>r. a = Post ev r))"
proof (cases "ev = []")
  case True
  then show ?thesis by (simp add: send_events_def)
next
  case False
  from send_events_loop_trace [of 0 "max_retries s" s http ev]
  obtain k where "historico (snd (send_events_loop http ev (max_retries s) 0 s))
          = historico s @ tentativas http ev (n_posts s) k" by blast
  with False show ?thesis
    using tentativas_set [of _ http ev "n_posts s" k]
    by (auto simp: send_events_def)
qed

lemma entre_superset: "set xs \<subseteq> set (entre sep xs)"
  by (induction sep xs rule: entre.induct) auto

lemma send_events_loop_ultimo:
  assumes "fst (send_events_loop http ev m 0 s)"
  shows "\<exists>r. sucesso r \<and> Post ev r \<in> set (historico (snd (send_events_loop http ev m 0 s)))"
proof -
  let ?r = "send_events_loop http ev m 0 s"
  from send_events_loop_trace [of 0 m s http ev]
  obtain k where all: "int (0 + k) \<le> max m (int 0) \<and>
        (int 0 < m \<longrightarrow> 0 < k) \<and>
        so_envio s (snd ?r) \<and>
        n_posts (snd ?r) = n_posts s + k \<and>
        historico (snd ?r) = historico s @ tentativas http ev (n_posts s) k \<and>
        (\<forall>i. Suc i < k \<longrightarrow> \<not> sucesso (http (n_posts s + i))) \<and>
        (fst ?r \<longleftrightarrow> 0 < k \<and> sucesso (http (n_posts s + k - 1))) \<and>
        (\<not> fst ?r \<longrightarrow> int (0 + k) = max m (int 0))"
    by (rule exE)
  from all have h: "historico (snd ?r) = historico s @ tentativas http ev (n_posts s) k"
    by (rule conjunct1 [OF conjunct2 [OF conjunct2 [OF conjunct2 [OF conjunct2]]]])
  from all have "fst ?r \<longleftrightarrow> 0 < k \<and> sucesso (http (n_posts s + k - 1))"
    by (rule conjunct1 [OF conjunct2 [OF conjunct2 [OF conjunct2 [OF conjunct2 [OF conjunct2 [OF conjunct2]]]]]])
  with assms have pos: "0 < k" and ok0: "sucesso (http (n_posts s + k - 1))" by simp_all
  have idx: "n_posts s + k - 1 = n_posts s + (k - 1)" using pos by arith
  from ok0 have ok: "sucesso (http (n_posts s + (k - 1)))" by (simp only: idx)
  have "k - 1 < k" using pos by arith
  then have "k - 1 \<in> set [0 ..< k]" by simp
  then have "(\<lambda>i. Post ev (http (n_posts s + i))) (k - 1)
      \<in> (\<lambda>i. Post ev (http (n_posts s + i))) ` set [0 ..< k]"
    by (rule imageI)
  then have "Post ev (http (n_posts s + (k - 1)))
      \<in> set (map (\<lambda>i. Post ev (http (n_posts s + i))) [0 ..< k])"
    by (simp only: set_map)
  then have mem: "Post ev (http (n_posts s + (k - 1))) \<in> set (tentativas http ev (n_posts s) k)"
    unfolding tentativas_def by (rule subsetD [OF entre_superset])
  then have "Post ev (http (n_posts s + (k - 1))) \<in> set (historico (snd ?r))"
    by (simp add: h)
  with ok show ?thesis by blast
qed


lemma confirmada_postada:
  "Post cs r \<in> set h \<Longrightarrow> sucesso r \<Longrightarrow> set cs \<subseteq> postadas (confirmadas h)"
proof
  fix c
  assume a: "Post cs r \<in> set h" and b: "sucesso r" and c: "c \<in> set cs"
  from a b have m: "Post cs r \<in> set (confirmadas h)" by (simp add: confirmadas_def)
  from c have "c \<in> set (cargas_de (Post cs r))" by simp
  with m have "\<exists>a \<in> set (confirmadas h). c \<in> set (cargas_de a)" by blast
  then show "c \<in> postadas (confirmadas h)" by (simp add: postadas_def)
qed

lemma send_events_confirmada:
  assumes "fst (send_events http s ev)" and "ev \<noteq> []"
  shows "\<exists>r. sucesso r \<and> Post ev r \<in> set (historico (snd (send_events http s ev)))"
  using assms send_events_loop_ultimo [of http ev "max_retries s" s]
  by (simp add: send_events_def)

lemma lotes_loop_cresce:
  "(\<exists>h. historico (fst (lotes_loop http evs bs i st)) = historico (fst st) @ h) \<and>
   (\<exists>g. snd (lotes_loop http evs bs i st) = snd st @ g)"
proof (induction http evs bs i st rule: lotes_loop.induct)
  case (1 http evs bs i st)
  show ?case
  proof (cases "i < length evs \<and> 0 < bs")
    case False
    have "lotes_loop http evs bs i st = st"
      by (subst lotes_loop.simps) (simp only: False if_False)
    then show ?thesis by simp
  next
    case True
    obtain s f where st: "st = (s, f)" by (cases st)
    define batch where "batch = take bs (drop i evs)"
    define res where "res = send_events http s batch"
    define f' where "f' = (if fst res then f else f @ [i])"
    define s' where "s' = (if i + bs < length evs
                        then (snd res)\<lparr>historico := historico (snd res) @ [Sleep 1]\<rparr>
                        else snd res)"
    have step: "lotes_loop http evs bs i st = lotes_loop http evs bs (i + bs) (s', f')"
      using True by (subst lotes_loop.simps) (simp add: st Let_def batch_def res_def f'_def s'_def)
    from "1.IH" [OF True st [symmetric] batch_def res_def f'_def s'_def]
    obtain h g where ih: "historico (fst (lotes_loop http evs bs (i + bs) (s', f'))) = historico s' @ h"
      "snd (lotes_loop http evs bs (i + bs) (s', f')) = f' @ g" by auto
    from send_events_hist [of http s batch]
    obtain h1 where h1: "historico (snd res) = historico s @ h1" unfolding res_def by blast
    have "\<exists>h2. historico s' = historico s @ h2" using h1 by (simp add: s'_def)
    then obtain h2 where h2: "historico s' = historico s @ h2" by blast
    have "\<exists>g2. f' = f @ g2" by (simp add: f'_def)
    then obtain g2 where g2: "f' = f @ g2" by blast
    show ?thesis unfolding step using ih h2 g2 st by simp
  qed
qed

lemma lotes_loop_entregues:
  "snd (lotes_loop http evs bs i st) = [] \<Longrightarrow> 0 < bs \<Longrightarrow>
   set (drop i evs) \<subseteq> postadas (confirmadas (historico (fst (lotes_loop http evs bs i st))))"
proof (induction http evs bs i st rule: lotes_loop.induct)
  case (1 http evs bs i st)
  show ?case
  proof (cases "i < length evs \<and> 0 < bs")
    case False
    with "1.prems"(2) have "drop i evs = []" by simp
    then show ?thesis by simp
  next
    case True
    obtain s f where st: "st = (s, f)" by (cases st)
    define batch where "batch = take bs (drop i evs)"
    define res where "res = send_events http s batch"
    define f' where "f' = (if fst res then f else f @ [i])"
    define s' where "s' = (if i + bs < length evs
                        then (snd res)\<lparr>historico := historico (snd res) @ [Sleep 1]\<rparr>
                        else snd res)"
    let ?fim = "lotes_loop http evs bs (i + bs) (s', f')"
    have step: "lotes_loop http evs bs i st = ?fim"
      using True by (subst lotes_loop.simps) (simp add: st Let_def batch_def res_def f'_def s'_def)
    from lotes_loop_cresce [of http evs bs "i + bs" "(s', f')"]
    obtain h g where gr: "historico (fst ?fim) = historico s' @ h" "snd ?fim = f' @ g" by auto
    from "1.prems"(1) step gr(2) have fe: "f' = []" by simp
    then have ok: "fst res" by (auto simp: f'_def split: if_splits)
    have vazio: "snd ?fim = []" using "1.prems"(1) step by simp
    from "1.IH" [OF True st [symmetric] batch_def res_def f'_def s'_def vazio "1.prems"(2)]
    have ih: "set (drop (i + bs) evs) \<subseteq> postadas (confirmadas (historico (fst ?fim)))" .
    have ne: "batch \<noteq> []" using True by (simp add: batch_def)
    from send_events_confirmada [OF ok [unfolded res_def] ne]
    obtain r where r: "sucesso r" "Post batch r \<in> set (historico (snd res))"
      unfolding res_def by blast
    then have "Post batch r \<in> set (historico s')" by (simp add: s'_def)
    then have "Post batch r \<in> set (historico (fst ?fim))" using gr(1) by simp
    from confirmada_postada [OF this r(1)]
    have b: "set batch \<subseteq> postadas (confirmadas (historico (fst ?fim)))" .
    have dd: "drop (i + bs) evs = drop bs (drop i evs)" by (simp add: add.commute)
    have "drop i evs = batch @ drop (i + bs) evs"
      by (simp only: dd batch_def append_take_drop_id)
    then have "set (drop i evs) = set (batch @ drop (i + bs) evs)" by simp
    then have "set (drop i evs) = set batch \<union> set (drop (i + bs) evs)"
      by (simp only: set_append)
    with b ih show ?thesis unfolding step by blast
  qed
qed

lemma send_events_batch_entregues:
  assumes "send_events_batch http s events = Inr (True, s1)" and "0 < batch_size s"
  shows "sem_record_id ` set events \<subseteq> postadas (confirmadas (historico s1))"
proof (cases "events = []")
  case True
  then show ?thesis by simp
next
  case False
  let ?l = "lotes_loop http (map sem_record_id events) (nat (batch_size s)) 0 (s, [])"
  from assms False have l: "snd ?l = []" "fst ?l = s1"
    by (auto simp: send_events_batch_def split: prod.splits)
  from lotes_loop_entregues [OF l(1)] assms(2)
  have "set (drop 0 (map sem_record_id events)) \<subseteq> postadas (confirmadas (historico (fst ?l)))"
    by simp
  with l(2) show ?thesis by simp
qed


text \<open>A server that confirms every request: every batch is delivered at the first attempt.\<close>

lemma send_events_sempre:
  assumes "\<forall>n. sucesso (http n)" and "0 < max_retries s"
  shows "fst (send_events http s ev)"
proof (cases "ev = []")
  case True
  then show ?thesis by (simp add: send_events_def)
next
  case False
  from send_events_loop_trace [of 0 "max_retries s" s http ev]
  obtain k where k: "int 0 < max_retries s \<longrightarrow> 0 < k"
    "fst (send_events_loop http ev (max_retries s) 0 s)
           \<longleftrightarrow> 0 < k \<and> sucesso (http (n_posts s + k - 1))"
    by blast
  with assms have "fst (send_events_loop http ev (max_retries s) 0 s)" by simp
  with False show ?thesis by (simp add: send_events_def)
qed

lemma lotes_loop_sempre:
  "\<forall>n. sucesso (http n) \<Longrightarrow> 0 < max_retries (fst st) \<Longrightarrow>
   snd (lotes_loop http evs bs i st) = snd st"
proof (induction http evs bs i st rule: lotes_loop.induct)
  case (1 http evs bs i st)
  show ?case
  proof (cases "i < length evs \<and> 0 < bs")
    case False
    then show ?thesis by (subst lotes_loop.simps) (simp only: False if_False)
  next
    case True
    obtain s failed where st: "st = (s, failed)" by (cases st) auto
    define batch where "batch = take bs (drop i evs)"
    define res where "res = send_events http s batch"
    define f' where "f' = (if fst res then failed else failed @ [i])"
    define s' where "s' = (if i + bs < length evs
                        then (snd res)\<lparr>historico := historico (snd res) @ [Sleep 1]\<rparr>
                        else snd res)"
    have step: "lotes_loop http evs bs i st = lotes_loop http evs bs (i + bs) (s', f')"
      by (subst lotes_loop.simps) (simp add: True st batch_def res_def f'_def s'_def Let_def)
    have mr: "0 < max_retries s" using "1.prems"(2) st by simp
    have ok: "fst res" unfolding res_def by (rule send_events_sempre [OF "1.prems"(1) mr])
    have "so_envio s (snd res)" unfolding res_def by (rule send_events_so_envio)
    then have "max_retries s' = max_retries s" by (simp add: s'_def so_envio_def)
    with mr have mr': "0 < max_retries (fst (s', f'))" by simp
    from "1.IH" [OF True st [symmetric] batch_def res_def f'_def s'_def "1.prems"(1) mr']
    have "snd (lotes_loop http evs bs (i + bs) (s', f')) = f'" by simp
    with ok show ?thesis unfolding step by (simp add: f'_def st)
  qed
qed

lemma send_events_batch_sempre:
  assumes "\<forall>n. sucesso (http n)" and "0 < max_retries s" and "0 < batch_size s"
  shows "\<exists>s1. send_events_batch http s events = Inr (True, s1)"
proof -
  from lotes_loop_sempre [OF assms(1), of "(s, [])" "map sem_record_id events"
      "nat (batch_size s)" 0] assms(2)
  have "snd (lotes_loop http (map sem_record_id events) (nat (batch_size s)) 0 (s, [])) = []"
    by simp
  with assms(3) show ?thesis
    by (auto simp: send_events_batch_def split: prod.splits)
qed


subsection \<open>The catch-up pass\<close>

lemma marcar_fields:
  "max_retries (marcar s e) = max_retries s" "batch_size (marcar s e) = batch_size s"
  "machine_name (marcar s e) = machine_name s" "arquivo (marcar s e) = arquivo s"
  "n_posts (marcar s e) = n_posts s" "historico (marcar s e) = historico s"
  "eventos_processados (marcar s e)
     = insert (id_do_raw (machine_name s) e) (eventos_processados s)"
  by (simp_all add: marcar_def Let_def)

lemma marcar_highest:
  "highest_record_id (marcar s e) =
     (if MachineName e = machine_name s \<and> RecordId e > highest_record_id s
      then RecordId e else highest_record_id s)"
  by (simp add: marcar_def Let_def)

lemma foldl_marcar_fields:
  "machine_name (foldl marcar s xs) = machine_name s \<and>
   arquivo (foldl marcar s xs) = arquivo s \<and>
   n_posts (foldl marcar s xs) = n_posts s \<and>
   historico (foldl marcar s xs) = historico s \<and>
   eventos_processados (foldl marcar s xs)
     = eventos_processados s \<union> id_do_raw (machine_name s) ` set xs"
  by (induction xs arbitrary: s) (auto simp: marcar_fields)

lemma foldl_marcar_highest:
  "highest_record_id s \<le> highest_record_id (foldl marcar s xs) \<and>
   (highest_record_id (foldl marcar s xs) = highest_record_id s \<or>
    (\<exists>e \<in> set xs. MachineName e = machine_name s \<and>
       RecordId e = highest_record_id (foldl marcar s xs)))"
proof (induction xs arbitrary: s)
  case Nil
  then show ?case by simp
next
  case (Cons x xs)
  from Cons.IH [of "marcar s x"]
  have ih: "highest_record_id (marcar s x) \<le> highest_record_id (foldl marcar (marcar s x) xs)"
    "highest_record_id (foldl marcar (marcar s x) xs) = highest_record_id (marcar s x) \<or>
      (\<exists>e \<in> set xs. MachineName e = machine_name s \<and>
         RecordId e = highest_record_id (foldl marcar (marcar s x) xs))"
    by (simp_all add: marcar_fields)
  have m: "highest_record_id s \<le> highest_record_id (marcar s x)"
    "highest_record_id (marcar s x) = highest_record_id s \<or>
      (MachineName x = machine_name s \<and> RecordId x = highest_record_id (marcar s x))"
    by (simp_all add: marcar_highest)
  from ih m show ?case by (simp del: foldl_Cons add: foldl_Cons [of marcar s x xs]) (metis order_trans)
qed

lemma salvar_fields:
  "max_retries (salvar_eventos_processados s) = max_retries s"
  "batch_size (salvar_eventos_processados s) = batch_size s"
  "machine_name (salvar_eventos_processados s) = machine_name s"
  "highest_record_id (salvar_eventos_processados s) = highest_record_id s"
  "n_posts (salvar_eventos_processados s) = n_posts s"
  "historico (salvar_eventos_processados s) = historico s"
  "arquivo (salvar_eventos_processados s)
     = Some (PidStr ` eventos_processados (salvar_eventos_processados s))"
  by (simp_all add: salvar_eventos_processados_def Let_def)

lemma salvar_small:
  "card (eventos_processados s) \<le> 50000 \<Longrightarrow>
   eventos_processados (salvar_eventos_processados s) = eventos_processados s"
  by (simp add: salvar_eventos_processados_def Let_def)


lemma extraidos_origem:
  "d \<in> set (extraidos s raws) \<Longrightarrow>
   \<exists>r \<in> set (nao_processados s raws). extrair_dados_evento r = Some d"
  by (auto simp: extraidos_def List.map_filter_def)

lemma processar_falha:
  assumes "send_events_batch http s (extraidos s raws) = Inr (False, s1)"
  shows "processar_todos_eventos http raws s = Inr s1 \<and> so_envio s s1"
proof -
  have ne: "extraidos s raws \<noteq> []"
    using assms by (auto simp: send_events_batch_def)
  then have "nao_processados s raws \<noteq> []" by (auto simp: extraidos_def List.map_filter_def)
  moreover from this have "raws \<noteq> []" by (auto simp: nao_processados_def)
  ultimately have "processar_todos_eventos http raws s = Inr s1"
    using ne assms by (simp add: processar_todos_eventos_def Let_def extraidos_def)
  with send_events_batch_frame [OF assms] show ?thesis by simp
qed

lemma processar_sucesso:
  assumes "extraidos s raws \<noteq> []"
    and "send_events_batch http s (extraidos s raws) = Inr (True, s1)"
  shows "processar_todos_eventos http raws s
           = Inr (salvar_eventos_processados (foldl marcar s1 (nao_processados s raws)))"
proof -
  from assms(1) have "nao_processados s raws \<noteq> []" by (auto simp: extraidos_def List.map_filter_def)
  moreover from this have "raws \<noteq> []" by (auto simp: nao_processados_def)
  ultimately show ?thesis
    using assms by (simp add: processar_todos_eventos_def Let_def extraidos_def)
qed

text \<open>
  What the clean-up of the save keeps: identities of the set it is given, each with a
  number after its first underscore.
\<close>

lemma set_ultimos: "set (ultimos n xs) \<subseteq> set xs"
  by (simp add: ultimos_def set_drop_subset)

lemma map_filter_membro:
  "y \<in> set (List.map_filter f xs) \<longleftrightarrow> (\<exists>x\<in>set xs. f x = Some y)"
  by (force simp: List.map_filter_def image_iff)

lemma eventos_por_maquina_membro:
  assumes "(maq, n, x) \<in> set (eventos_por_maquina S)"
  shows "x \<in> set (sorted_list_of_set S) \<and>
    (\<exists>resto. split_1 x = Some (maq, resto) \<and> py_int resto = Some n)"
proof -
  from assms obtain y where y: "y \<in> set (sorted_list_of_set S)"
    "(case split_1 y of
           None \<Rightarrow> None
         | Some (maquina, resto) \<Rightarrow>
             (case py_int resto of None \<Rightarrow> None | Some n \<Rightarrow> Some (maquina, n, y)))
       = Some (maq, n, x)"
    unfolding eventos_por_maquina_def map_filter_membro by blast
  from y(2) obtain resto where "split_1 y = Some (maq, resto)" "py_int resto = Some n" "y = x"
    by (auto split: option.splits)
  with y(1) show ?thesis by blast
qed

lemma limpar_arquivo_membro:
  assumes "x \<in> limpar_arquivo S"
  shows "x \<in> set (sorted_list_of_set S) \<and>
    (\<exists>maq resto n. split_1 x = Some (maq, resto) \<and> py_int resto = Some n)"
proof -
  from assms have "x \<in> (\<Union>maquina \<in> set (map fst (eventos_por_maquina S)).
        set (map snd (ultimos 10000
          (sort_key fst (map snd (filter (\<lambda>p. fst p = maquina) (eventos_por_maquina S)))))))"
    unfolding limpar_arquivo_def Let_def .
  then obtain maq where
    "x \<in> set (map snd (ultimos 10000
        (sort_key fst (map snd (filter (\<lambda>p. fst p = maq) (eventos_por_maquina S))))))"
    by (rule UN_E)
  then obtain n where "(n, x) \<in> set (ultimos 10000
        (sort_key fst (map snd (filter (\<lambda>p. fst p = maq) (eventos_por_maquina S)))))"
    by auto
  then have "(n, x) \<in> set
        (sort_key fst (map snd (filter (\<lambda>p. fst p = maq) (eventos_por_maquina S))))"
    by (rule subsetD [OF set_ultimos])
  then have "(n, x) \<in> snd ` set (filter (\<lambda>p. fst p = maq) (eventos_por_maquina S))"
    by simp
  then have "(maq, n, x) \<in> set (eventos_por_maquina S)" by auto
  from eventos_por_maquina_membro [OF this] show ?thesis by blast
qed

lemma limpar_arquivo_subset: "limpar_arquivo S \<subseteq> S"
proof
  fix x assume "x \<in> limpar_arquivo S"
  then have x: "x \<in> set (sorted_list_of_set S)" using limpar_arquivo_membro by blast
  show "x \<in> S"
  proof (cases "finite S")
    case True
    with x show ?thesis by simp
  next
    case False
    then have "sorted_list_of_set S = []" by (rule sorted_list_of_set.fold_insort_key.infinite)
    with x show ?thesis by simp
  qed
qed


text \<open>
  Claim C10, as amended. In a catch-up pass, an event \<open>r\<close> that was not processed before
  and whose extraction gives no record is marked with the others once the records of the
  pass (at least one was extracted) are delivered: the set of processed identities
  becomes the old set with the identities of all new events of the pass, that of \<open>r\<close>
  among them, cut down by \<open>limpar_arquivo\<close> if it holds more than 50000 identities,
  and the state file holds exactly that set. When the marked set holds at most 50000
  identities, the identity of \<open>r\<close> is in the set and in the file afterwards; whenever it
  is in the set afterwards, a later pass over the same events no longer takes \<open>r\<close> up.
  Nothing of \<open>r\<close> was sent: every record the pass posted is the extraction of another
  event.
\<close>

theorem evento_sem_extracao_marcado:
  assumes "r \<in> set (nao_processados s raws)" and "extrair_dados_evento r = None"
    and "extraidos s raws \<noteq> []"
    and "send_events_batch http s (extraidos s raws) = Inr (True, s1)"
  shows "\<exists>s'.
     processar_todos_eventos http raws s = Inr s' \<and>
     eventos_processados s'
       = (if 50000 < card (eventos_processados s
              \<union> id_do_raw (machine_name s) ` set (nao_processados s raws))
          then limpar_arquivo (eventos_processados s
              \<union> id_do_raw (machine_name s) ` set (nao_processados s raws))
          else eventos_processados s
              \<union> id_do_raw (machine_name s) ` set (nao_processados s raws)) \<and>
     arquivo s' = Some (PidStr ` eventos_processados s') \<and>
     (card (eventos_processados s
              \<union> id_do_raw (machine_name s) ` set (nao_processados s raws)) \<le> 50000 \<longrightarrow>
        id_do_raw (machine_name s) r \<in> eventos_processados s' \<and>
        arquivo s' = Some (PidStr ` (eventos_processados s
              \<union> id_do_raw (machine_name s) ` set (nao_processados s raws))) \<and>
        r \<notin> set (nao_processados s' raws)) \<and>
     (id_do_raw (machine_name s) r \<in> eventos_processados s' \<longrightarrow>
        r \<notin> set (nao_processados s' raws)) \<and>
     postadas (historico s')
       \<subseteq> postadas (historico s) \<union> sem_record_id ` set (extraidos s raws) \<and>
     (\<forall>d \<in> set (extraidos s raws).
        \<exists>r' \<in> set raws. r' \<noteq> r \<and> extrair_dados_evento r' = Some d)"
proof -
  let ?M = "eventos_processados s \<union> id_do_raw (machine_name s) ` set (nao_processados s raws)"
  let ?m = "foldl marcar s1 (nao_processados s raws)"
  let ?s' = "salvar_eventos_processados ?m"
  from send_events_batch_frame [OF assms(4)] have fr: "so_envio s s1"
    and po: "postadas (historico s1) \<subseteq> postadas (historico s) \<union> sem_record_id ` set (extraidos s raws)"
    by simp_all
  have mn: "machine_name s1 = machine_name s" using fr by (simp add: so_envio_def)
  have ev: "eventos_processados ?m = ?M"
    using foldl_marcar_fields [of s1 "nao_processados s raws"] fr by (simp add: so_envio_def)
  have a: "processar_todos_eventos http raws s = Inr ?s'"
    by (rule processar_sucesso [OF assms(3,4)])
  have b: "eventos_processados ?s' = (if 50000 < card ?M then limpar_arquivo ?M else ?M)"
    unfolding ev [symmetric] by (simp add: salvar_eventos_processados_def Let_def)
  have c: "arquivo ?s' = Some (PidStr ` eventos_processados ?s')"
    by (rule salvar_fields(7))
  have mn': "machine_name ?s' = machine_name s"
    using foldl_marcar_fields [of s1 "nao_processados s raws"] mn by (simp add: salvar_fields)
  have g: "r \<notin> set (nao_processados ?s' raws)"
    if "id_do_raw (machine_name s) r \<in> eventos_processados ?s'"
    using that mn' by (simp add: nao_processados_def)
  have h: "id_do_raw (machine_name s) r \<in> eventos_processados ?s' \<and>
        arquivo ?s' = Some (PidStr ` ?M) \<and> r \<notin> set (nao_processados ?s' raws)"
    if small: "card ?M \<le> 50000"
  proof -
    from small b have e: "eventos_processados ?s' = ?M" by simp
    moreover have "id_do_raw (machine_name s) r \<in> ?M" using assms(1) by blast
    ultimately show ?thesis using c g by simp
  qed
  have d: "postadas (historico ?s')
       \<subseteq> postadas (historico s) \<union> sem_record_id ` set (extraidos s raws)"
    using po foldl_marcar_fields [of s1 "nao_processados s raws"] by (simp add: salvar_fields)
  have e: "\<forall>d \<in> set (extraidos s raws). \<exists>r' \<in> set raws. r' \<noteq> r \<and> extrair_dados_evento r' = Some d"
  proof
    fix d assume "d \<in> set (extraidos s raws)"
    from extraidos_origem [OF this] obtain r' where
      "r' \<in> set (nao_processados s raws)" "extrair_dados_evento r' = Some d" by blast
    moreover from this assms(2) have "r' \<noteq> r" by auto
    ultimately show "\<exists>r' \<in> set raws. r' \<noteq> r \<and> extrair_dados_evento r' = Some d"
      by (auto simp: nao_processados_def)
  qed
  from a b c g h d e show ?thesis by blast
qed



lemma sum_caso_sucesso:
  "(case x of Inl e \<Rightarrow> False | Inr p \<Rightarrow> fst p) \<Longrightarrow> \<exists>s1. x = Inr (True, s1)"
  by (cases x) auto

lemma card_arquivo_cheio: "card arquivo_cheio = 50001"
proof -
  have "inj_on (\<lambda>n. ''PC2_'' @ str_of_nat n) {1 .. 50001}"
    by (rule inj_onI) (auto dest: str_of_nat_inj)
  then have "card arquivo_cheio = card {1 .. 50001 :: nat}"
    unfolding arquivo_cheio_def by (rule card_image)
  then show ?thesis by simp
qed

lemma monitor_cheio_fields:
  "max_retries monitor_cheio = 3" "batch_size monitor_cheio = 50"
  "machine_name monitor_cheio = ''PC1''" "eventos_processados monitor_cheio = arquivo_cheio"
  by (simp_all add: monitor_cheio_def monitor_exemplo_fields)



theorem evento_sem_extracao_marcado_witness:
  "raw_n 9 ''PC1'' None \<in> set (nao_processados monitor_exemplo
       [raw_n 7 ''PC1'' (Some []), raw_n 9 ''PC1'' None]) \<and>
   extrair_dados_evento (raw_n 9 ''PC1'' None) = None \<and>
   (\<exists>s'.
      processar_todos_eventos (\<lambda>n. Status 200 True)
        [raw_n 7 ''PC1'' (Some []), raw_n 9 ''PC1'' None] monitor_exemplo = Inr s' \<and>
      eventos_processados s' = {''PC1_7'', ''PC1_9''} \<and>
      arquivo s' = Some {PidStr ''PC1_7'', PidStr ''PC1_9''} \<and>
      raw_n 9 ''PC1'' None
        \<notin> set (nao_processados s' [raw_n 7 ''PC1'' (Some []), raw_n 9 ''PC1'' None]) \<and>
      postadas (historico s')
        \<subseteq> {sem_record_id (the (extrair_dados_evento (raw_n 7 ''PC1'' (Some []))))})"
proof -
  let ?raws = "[raw_n 7 ''PC1'' (Some []), raw_n 9 ''PC1'' None]"
  have r: "raw_n 9 ''PC1'' None \<in> set (nao_processados monitor_exemplo ?raws)"
    by (simp add: nao_processados_def monitor_exemplo_fields)
  have x: "extrair_dados_evento (raw_n 9 ''PC1'' None) = None"
    by (simp add: extrair_dados_evento_def raw_n_def)
  have ne: "extraidos monitor_exemplo ?raws \<noteq> []" by code_simp
  have ex: "sem_record_id ` set (extraidos monitor_exemplo ?raws)
      = {sem_record_id (the (extrair_dados_evento (raw_n 7 ''PC1'' (Some []))))}"
    by code_simp
  have g: "case send_events_batch (\<lambda>n. Status 200 True) monitor_exemplo
                  (extraidos monitor_exemplo ?raws)
           of Inl e \<Rightarrow> False | Inr p \<Rightarrow> fst p"
    by code_simp
  from sum_caso_sucesso [OF g] obtain s1 where s1:
    "send_events_batch (\<lambda>n. Status 200 True) monitor_exemplo (extraidos monitor_exemplo ?raws)
       = Inr (True, s1)" by blast
  have ids: "id_do_raw ''PC1'' ` set (nao_processados monitor_exemplo ?raws)
      = {''PC1_7'', ''PC1_9''}"
    by code_simp
  have M: "eventos_processados monitor_exemplo
      \<union> id_do_raw (machine_name monitor_exemplo) ` set (nao_processados monitor_exemplo ?raws)
      = {''PC1_7'', ''PC1_9''}"
    by (simp add: monitor_exemplo_fields ids)
  have small: "card {''PC1_7'', ''PC1_9''} \<le> (50000::nat)"
    by simp
  from evento_sem_extracao_marcado [OF r x ne s1, unfolded M]
  obtain s' where p: "processar_todos_eventos (\<lambda>n. Status 200 True) ?raws monitor_exemplo = Inr s' \<and>
     eventos_processados s'
       = (if 50000 < card {''PC1_7'', ''PC1_9''}
          then limpar_arquivo {''PC1_7'', ''PC1_9''} else {''PC1_7'', ''PC1_9''}) \<and>
     arquivo s' = Some (PidStr ` eventos_processados s') \<and>
     (card {''PC1_7'', ''PC1_9''} \<le> 50000 \<longrightarrow>
        id_do_raw (machine_name monitor_exemplo) (raw_n 9 ''PC1'' None) \<in> eventos_processados s' \<and>
        arquivo s' = Some (PidStr ` {''PC1_7'', ''PC1_9''}) \<and>
        raw_n 9 ''PC1'' None \<notin> set (nao_processados s' ?raws)) \<and>
     (id_do_raw (machine_name monitor_exemplo) (raw_n 9 ''PC1'' None) \<in> eventos_processados s' \<longrightarrow>
        raw_n 9 ''PC1'' None \<notin> set (nao_processados s' ?raws)) \<and>
     postadas (historico s')
       \<subseteq> postadas (historico monitor_exemplo)
         \<union> sem_record_id ` set (extraidos monitor_exemplo ?raws) \<and>
     (\<forall>d \<in> set (extraidos monitor_exemplo ?raws).
        \<exists>r' \<in> set ?raws. r' \<noteq> raw_n 9 ''PC1'' None \<and> extrair_dados_evento r' = Some d)"
    by (rule exE)
  from p have p1: "processar_todos_eventos (\<lambda>n. Status 200 True) ?raws monitor_exemplo = Inr s'"
    by (rule conjunct1)
  from p small have p2: "eventos_processados s' = {''PC1_7'', ''PC1_9''}"
    by (simp del: card_insert_if)
  from p small have p3: "arquivo s' = Some (PidStr ` {''PC1_7'', ''PC1_9''})"
    "raw_n 9 ''PC1'' None \<notin> set (nao_processados s' ?raws)"
    by (simp_all del: card_insert_if)
  from p3(1) have p3': "arquivo s' = Some {PidStr ''PC1_7'', PidStr ''PC1_9''}" by simp
  from p have "postadas (historico s')
       \<subseteq> postadas (historico monitor_exemplo)
         \<union> sem_record_id ` set (extraidos monitor_exemplo ?raws)"
    by (rule conjunct1 [OF conjunct2 [OF conjunct2 [OF conjunct2 [OF conjunct2 [OF conjunct2]]]]])
  then have p4: "postadas (historico s')
        \<subseteq> {sem_record_id (the (extrair_dados_evento (raw_n 7 ''PC1'' (Some []))))}"
    by (simp only: ex monitor_exemplo_fields postadas_def list.map concat.simps set_simps Un_empty_left)
  from r x p1 p2 p3' p3(2) p4 show ?thesis by blast
qed

text \<open>
  The clean-up on the sample state file: the identity of event 0 of the machine
  \<^verbatim>\<open>PC2\<close> is not among the 10000 identities with the largest numbers of that machine.
\<close>

lemma length_str_of_nat: "0 < k \<Longrightarrow> n < 10 ^ k \<Longrightarrow> length (str_of_nat n) \<le> k"
proof (induction n arbitrary: k rule: str_of_nat.induct)
  case (1 n)
  show ?case
  proof (cases "n < 10")
    case True
    with "1.prems"(1) show ?thesis by (subst str_of_nat.simps) simp
  next
    case False
    have k2: "1 < k"
    proof (rule ccontr)
      assume "\<not> 1 < k"
      with "1.prems"(1) have "k = 1" by simp
      with "1.prems"(2) False show False by simp
    qed
    then obtain j where j: "k = Suc j" "0 < j" by (cases k) auto
    from "1.prems"(2) j have "n div 10 < 10 ^ j" by (simp add: less_mult_imp_div_less mult.commute)
    from "1.IH" [OF False j(2) this] have "length (str_of_nat (n div 10)) \<le> j" .
    with False j show ?thesis by (subst str_of_nat.simps) simp
  qed
qed

lemma is_digit_digit_char: "d < 10 \<Longrightarrow> is_digit (digit_char d)"
  by (simp add: is_digit_def digit_char_range)

lemma str_of_nat_digitos: "list_all is_digit (str_of_nat n)"
  unfolding list_all_iff using str_of_nat_chars is_digit_digit_char by blast

lemma py_int_str_of_nat:
  assumes "n < 10 ^ 6"
  shows "py_int (str_of_nat n) = Some (int n)"
proof -
  from length_str_of_nat [OF _ assms] have "length (str_of_nat n) \<le> 6" by simp
  then have "\<not> int_max_str_digits < length (str_of_nat n)"
    by (simp add: int_max_str_digits_def)
  with py_int_digitos [OF str_of_nat_nonempty str_of_nat_digitos, of n]
  show ?thesis by (simp add: nat_of_digits_str_of_nat)
qed

lemma ultimos_ordenados:
  assumes "sorted (map f xs)" and "x \<in> set (ultimos N xs)"
  shows "length (filter (\<lambda>p. f x < f p) xs) < N"
proof -
  define d where "d = length xs - N"
  have xs: "xs = take d xs @ drop d xs" by simp
  from assms(2) have x: "x \<in> set (drop d xs)" by (simp add: ultimos_def d_def)
  from assms(1) have "sorted (map f (take d xs) @ map f (drop d xs))"
    by (subst (asm) xs) (simp only: map_append)
  then have le: "\<forall>a \<in> set (take d xs). \<forall>b \<in> set (drop d xs). f a \<le> f b"
    by (auto simp: sorted_append)
  have "\<not> f x < f a" if "a \<in> set (take d xs)" for a
  proof -
    from le that x have "f a \<le> f x" by blast
    then show ?thesis by (simp add: not_less)
  qed
  then have "filter (\<lambda>p. f x < f p) (take d xs) = []"
    by (simp add: filter_empty_conv)
  then have "filter (\<lambda>p. f x < f p) xs = filter (\<lambda>p. f x < f p) (drop d xs)"
    by (subst xs) (simp only: filter_append append_Nil)
  moreover have "length (filter (\<lambda>p. f x < f p) (drop d xs)) < length (drop d xs)"
    by (rule length_filter_less [OF x]) simp
  moreover have "length (drop d xs) \<le> N" by (simp add: d_def)
  ultimately show ?thesis by simp
qed

lemma limpar_arquivo_ultimos:
  assumes "x \<in> limpar_arquivo S"
  shows "\<exists>maq n. (n, x) \<in> set (ultimos 10000
        (sort_key fst (map snd (filter (\<lambda>p. fst p = maq) (eventos_por_maquina S)))))"
proof -
  from assms have "x \<in> (\<Union>maquina \<in> set (map fst (eventos_por_maquina S)).
        set (map snd (ultimos 10000
          (sort_key fst (map snd (filter (\<lambda>p. fst p = maquina) (eventos_por_maquina S)))))))"
    unfolding limpar_arquivo_def Let_def .
  then obtain maq where
    "x \<in> set (map snd (ultimos 10000
        (sort_key fst (map snd (filter (\<lambda>p. fst p = maq) (eventos_por_maquina S))))))"
    by (rule UN_E)
  then obtain n where "(n, x) \<in> set (ultimos 10000
        (sort_key fst (map snd (filter (\<lambda>p. fst p = maq) (eventos_por_maquina S)))))"
    by auto
  then show ?thesis by blast
qed

lemma split_1_pc2: "split_1 (''PC2_'' @ t) = Some (''PC2'', t)"
  by (simp add: split_1_def)

lemma pc2_0_descartado:
  "''PC2_0'' \<notin> limpar_arquivo (arquivo_cheio \<union> {''PC1_7'', ''PC2_0''})"
proof
  define S where "S = arquivo_cheio \<union> {''PC1_7'', ''PC2_0''}"
  let ?E = "eventos_por_maquina S"
  assume "''PC2_0'' \<in> limpar_arquivo (arquivo_cheio \<union> {''PC1_7'', ''PC2_0''})"
  then have "''PC2_0'' \<in> limpar_arquivo S" by (simp only: S_def)
  from limpar_arquivo_ultimos [OF this] obtain maq n where
    u: "(n, ''PC2_0'') \<in> set (ultimos 10000
        (sort_key fst (map snd (filter (\<lambda>p. fst p = maq) ?E))))" by blast
  define L where "L = map snd (filter (\<lambda>p. fst p = maq) ?E)"
  from u have "(n, ''PC2_0'') \<in> set (sort_key fst L)"
    unfolding L_def by (rule subsetD [OF set_ultimos])
  then have "(n, ''PC2_0'') \<in> snd ` set (filter (\<lambda>p. fst p = maq) ?E)"
    by (simp add: L_def)
  then have "(maq, n, ''PC2_0'') \<in> set ?E" by auto
  from eventos_por_maquina_membro [OF this] obtain resto where
    "split_1 ''PC2_0'' = Some (maq, resto)" "py_int resto = Some n" by blast
  moreover have "split_1 ''PC2_0'' = Some (''PC2'', ''0'')" by (simp add: split_1_def)
  moreover have "py_int ''0'' = Some 0" by code_simp
  ultimately have mn: "maq = ''PC2''" "n = 0" by simp_all
  have "sorted (map fst (sort_key fst L))" by (rule sorted_sort_key)
  from ultimos_ordenados [OF this u [folded L_def]]
  have "length (filter (\<lambda>p. n < fst p) (sort_key fst L)) < 10000" by simp
  then have few: "length (filter (\<lambda>p. 0 < fst p) L) < 10000"
    by (simp add: mn filter_sort)
  have fin: "finite S" by (simp add: S_def arquivo_cheio_def)
  have mem: "(int k, ''PC2_'' @ str_of_nat k) \<in> set (filter (\<lambda>p. 0 < fst p) L)"
    if k: "k \<in> {1 .. 50001}" for k
  proof -
    have "''PC2_'' @ str_of_nat k \<in> S" using k by (simp add: S_def arquivo_cheio_def)
    then have "''PC2_'' @ str_of_nat k \<in> set (sorted_list_of_set S)"
      using fin by (simp only: set_sorted_list_of_set)
    moreover have "k < 10 ^ 6" using k by simp
    then have "py_int (str_of_nat k) = Some (int k)" by (rule py_int_str_of_nat)
    ultimately have "(''PC2'', int k, ''PC2_'' @ str_of_nat k) \<in> set ?E"
      unfolding eventos_por_maquina_def map_filter_membro
      by (intro bexI [of _ "''PC2_'' @ str_of_nat k"]) (simp_all only: split_1_pc2 option.case prod.case)
    then have "(int k, ''PC2_'' @ str_of_nat k) \<in> set L"
      unfolding L_def mn by force
    with k show ?thesis by simp
  qed
  have "inj_on (\<lambda>k. (int k, ''PC2_'' @ str_of_nat k)) {1 .. 50001}"
    by (rule inj_onI) simp
  then have "card ((\<lambda>k. (int k, ''PC2_'' @ str_of_nat k)) ` {1 .. 50001}) = card {1 .. 50001 :: nat}"
    by (rule card_image)
  moreover have "(\<lambda>k. (int k, ''PC2_'' @ str_of_nat k)) ` {1 .. 50001}
      \<subseteq> set (filter (\<lambda>p. 0 < fst p) L)"
    using mem by blast
  then have "card ((\<lambda>k. (int k, ''PC2_'' @ str_of_nat k)) ` {1 .. 50001})
      \<le> card (set (filter (\<lambda>p. 0 < fst p) L))"
    by (rule card_mono [rotated]) simp
  moreover have "card (set (filter (\<lambda>p. 0 < fst p) L)) \<le> length (filter (\<lambda>p. 0 < fst p) L)"
    by (rule card_length)
  ultimately have "50001 \<le> length (filter (\<lambda>p. 0 < fst p) L)" by simp
  with few show False by simp
qed

lemma pc2_0_novo: "''PC2_0'' \<notin> arquivo_cheio"
proof
  assume "''PC2_0'' \<in> arquivo_cheio"
  then obtain k where k: "k \<in> {1 .. 50001}" "''PC2_0'' = ''PC2_'' @ str_of_nat k"
    unfolding arquivo_cheio_def by blast
  have "str_of_nat 0 = ''0''" by code_simp
  with k(2) have "str_of_nat k = str_of_nat 0" by simp
  then have "k = 0" by (rule str_of_nat_inj)
  with k(1) show False by simp
qed

text \<open>
  Claim C10 as stated fails when the save cleans the set. The state file holds the
  identities of the events 1 to 50001 of the machine \<^verbatim>\<open>PC2\<close>; the pass delivers the
  record of event 7 and marks event 0 of \<^verbatim>\<open>PC2\<close>, whose message is null. The save
  keeps, for each machine, the 10000 identities with the largest numbers, so
  \<^verbatim>\<open>PC2_0\<close> is dropped: it is neither in the set nor in the file afterwards, and the
  next pass takes the event up again.
\<close>

theorem identidade_marcada_e_descartada:
  "card (eventos_processados monitor_cheio) = 50001 \<and>
   id_do_raw (machine_name monitor_cheio) (raw_n 0 ''PC2'' None) = ''PC2_0'' \<and>
   raw_n 0 ''PC2'' None
     \<in> set (nao_processados monitor_cheio [raw_n 7 ''PC1'' (Some []), raw_n 0 ''PC2'' None]) \<and>
   extrair_dados_evento (raw_n 0 ''PC2'' None) = None \<and>
   (case processar_todos_eventos (\<lambda>n. Status 200 True)
           [raw_n 7 ''PC1'' (Some []), raw_n 0 ''PC2'' None] monitor_cheio of
      Inl e \<Rightarrow> False
    | Inr s' \<Rightarrow>
        sem_record_id (the (extrair_dados_evento (raw_n 7 ''PC1'' (Some []))))
          \<in> postadas (confirmadas (historico s')) \<and>
        ''PC2_0'' \<notin> eventos_processados s' \<and>
        arquivo s' = Some (PidStr ` eventos_processados s') \<and>
        raw_n 0 ''PC2'' None
          \<in> set (nao_processados s' [raw_n 7 ''PC1'' (Some []), raw_n 0 ''PC2'' None]))"
proof -
  let ?r7 = "raw_n 7 ''PC1'' (Some [])" and ?r0 = "raw_n 0 ''PC2'' None"
  let ?raws = "[?r7, ?r0]"
  let ?http = "\<lambda>n::nat. Status 200 True"
  have i7: "id_do_raw ''PC1'' ?r7 = ''PC1_7''" by code_simp
  have i0: "id_do_raw ''PC1'' ?r0 = ''PC2_0''" by code_simp
  have n7: "''PC1_7'' \<notin> arquivo_cheio" by (auto simp: arquivo_cheio_def)
  note n0 = pc2_0_novo
  have np: "nao_processados monitor_cheio ?raws = ?raws"
    by (simp add: nao_processados_def monitor_cheio_fields i7 i0 n7 n0)
  have x0: "extrair_dados_evento ?r0 = None"
    by (simp add: extrair_dados_evento_def raw_n_def)
  have "Message ?r7 = Some []" "length ([] :: string) \<le> int_max_str_digits"
    by (simp_all add: raw_n_def)
  from extrair_curta [OF this] obtain d7 where x7: "extrair_dados_evento ?r7 = Some d7" by blast
  have ex: "extraidos monitor_cheio ?raws = [d7]"
    by (simp add: extraidos_def np List.map_filter_def x7 x0)
  have "\<forall>n. sucesso (?http n)" by (simp add: sucesso_def)
  from send_events_batch_sempre [OF this, of monitor_cheio "[d7]"]
  obtain s1 where sb: "send_events_batch ?http monitor_cheio (extraidos monitor_cheio ?raws)
      = Inr (True, s1)"
    unfolding ex by (auto simp: monitor_cheio_fields)
  define m where "m = foldl marcar s1 (nao_processados monitor_cheio ?raws)"
  define s' where "s' = salvar_eventos_processados m"
  have ne: "extraidos monitor_cheio ?raws \<noteq> []" by (simp add: ex)
  from processar_sucesso [OF ne sb]
  have ps: "processar_todos_eventos ?http ?raws monitor_cheio = Inr s'"
    by (simp only: m_def s'_def)
  from send_events_batch_frame [OF sb] have fr: "so_envio monitor_cheio s1" by simp
  then have f1: "machine_name s1 = ''PC1''" "eventos_processados s1 = arquivo_cheio"
    by (simp_all add: so_envio_def monitor_cheio_fields)
  have ev: "eventos_processados m = arquivo_cheio \<union> {''PC1_7'', ''PC2_0''}"
    using foldl_marcar_fields [of s1 "nao_processados monitor_cheio ?raws"]
    unfolding m_def [symmetric] by (simp add: np f1 i7 i0)
  have fin: "finite arquivo_cheio" by (simp add: arquivo_cheio_def)
  have "card arquivo_cheio \<le> card (arquivo_cheio \<union> {''PC1_7'', ''PC2_0''})"
    by (rule card_mono) (use fin in auto)
  then have big: "50000 < card (eventos_processados m)"
    by (simp only: ev card_arquivo_cheio)
  then have sv: "eventos_processados s' = limpar_arquivo (eventos_processados m)"
    by (simp add: s'_def salvar_eventos_processados_def Let_def)
  have out: "''PC2_0'' \<notin> eventos_processados s'"
    unfolding sv ev by (rule pc2_0_descartado)
  have mn: "machine_name s' = ''PC1''"
    using foldl_marcar_fields [of s1 "nao_processados monitor_cheio ?raws"]
    unfolding m_def [symmetric] by (simp add: s'_def salvar_fields f1)
  have again: "?r0 \<in> set (nao_processados s' ?raws)"
    using out by (simp add: nao_processados_def mn i0)
  have hist: "historico s' = historico s1"
    using foldl_marcar_fields [of s1 "nao_processados monitor_cheio ?raws"]
    unfolding m_def [symmetric] by (simp add: s'_def salvar_fields)
  from send_events_batch_entregues [OF sb] have
    "sem_record_id ` set (extraidos monitor_cheio ?raws) \<subseteq> postadas (confirmadas (historico s1))"
    by (simp add: monitor_cheio_fields)
  then have del: "sem_record_id (the (extrair_dados_evento ?r7))
      \<in> postadas (confirmadas (historico s'))"
    by (simp add: ex x7 hist)
  have a: "card (eventos_processados monitor_cheio) = 50001"
    by (simp add: monitor_cheio_fields card_arquivo_cheio)
  have b: "id_do_raw (machine_name monitor_cheio) ?r0 = ''PC2_0''"
    by (simp add: monitor_cheio_fields i0)
  have c: "?r0 \<in> set (nao_processados monitor_cheio ?raws)" by (simp add: np)
  have d: "case processar_todos_eventos ?http ?raws monitor_cheio of
      Inl e \<Rightarrow> False
    | Inr s' \<Rightarrow>
        sem_record_id (the (extrair_dados_evento ?r7)) \<in> postadas (confirmadas (historico s')) \<and>
        ''PC2_0'' \<notin> eventos_processados s' \<and>
        arquivo s' = Some (PidStr ` eventos_processados s') \<and>
        ?r0 \<in> set (nao_processados s' ?raws)"
    unfolding ps using del out again salvar_fields(7) [of m] by (simp add: s'_def)
  from a b c x0 d show ?thesis by (intro conjI)
qed


subsection \<open>The polling loop\<close>

lemma extrai_documento_keeps:
  "record_id (extrai_documento r m d) = record_id d" "machine (extrai_documento r m d) = machine d"
  by (simp_all add: extrai_documento_def split: option.splits list.splits)

lemma extrai_impressora_keeps:
  "record_id (extrai_impressora r m d) = record_id d" "machine (extrai_impressora r m d) = machine d"
  by (simp_all add: extrai_impressora_def split: option.splits list.splits)

lemma tenta_paginas_keeps:
  "tenta_paginas ic r m st = Inr st' \<Longrightarrow>
   record_id (fst st') = record_id (fst st) \<and> machine (fst st') = machine (fst st)"
  by (auto simp: tenta_paginas_def split: prod.splits option.splits sum.splits if_splits)

lemma entao_Inr: "entao x f = Inr y \<Longrightarrow> \<exists>v. x = Inr v \<and> f v = Inr y"
  by (cases x) (simp_all add: entao_def)

lemma ramo_portugues_keeps:
  assumes "ramo_portugues m d = Inr d'"
  shows "record_id d' = record_id d \<and> machine d' = machine d"
proof -
  let ?d = "extrai_impressora rx_pt_impressora m (extrai_documento rx_pt_documento m d)"
  from assms have "entao (tenta_paginas False rx_pt1 m (?d, False)) (\<lambda>st.
         entao (tenta_paginas False rx_pt2 m st) (\<lambda>st.
         entao (tenta_paginas True rx_pt3 m st) (\<lambda>st. Inr (fst st)))) = Inr d'"
    by (simp add: ramo_portugues_def Let_def)
  then obtain s1 s2 s3 where
    "tenta_paginas False rx_pt1 m (?d, False) = Inr s1"
    "tenta_paginas False rx_pt2 m s1 = Inr s2"
    "tenta_paginas True rx_pt3 m s2 = Inr s3" "d' = fst s3"
    by (auto dest!: entao_Inr)
  then show ?thesis
    using tenta_paginas_keeps [of False rx_pt1 m "(?d, False)" s1]
      tenta_paginas_keeps [of False rx_pt2 m s1 s2] tenta_paginas_keeps [of True rx_pt3 m s2 s3]
    by (simp add: extrai_documento_keeps extrai_impressora_keeps)
qed

lemma ramo_ingles_keeps:
  assumes "ramo_ingles m d = Inr d'"
  shows "record_id d' = record_id d \<and> machine d' = machine d"
proof -
  let ?d = "extrai_impressora rx_en_impressora m (extrai_documento rx_en_documento m d)"
  from assms have "entao (tenta_paginas False rx_en1 m (?d, False)) (\<lambda>st.
         entao (tenta_paginas False rx_en2 m st) (\<lambda>st.
         entao (tenta_paginas True rx_en3 m st) (\<lambda>st.
         entao (tenta_paginas False rx_4 m st) (\<lambda>st. Inr (fst st))))) = Inr d'"
    by (simp add: ramo_ingles_def Let_def)
  then obtain s1 s2 s3 s4 where
    "tenta_paginas False rx_en1 m (?d, False) = Inr s1"
    "tenta_paginas False rx_en2 m s1 = Inr s2"
    "tenta_paginas True rx_en3 m s2 = Inr s3"
    "tenta_paginas False rx_4 m s3 = Inr s4" "d' = fst s4"
    by (auto dest!: entao_Inr)
  then show ?thesis
    using tenta_paginas_keeps [of False rx_en1 m "(?d, False)" s1]
      tenta_paginas_keeps [of False rx_en2 m s1 s2] tenta_paginas_keeps [of True rx_en3 m s2 s3]
      tenta_paginas_keeps [of False rx_4 m s3 s4]
    by (simp add: extrai_documento_keeps extrai_impressora_keeps)
qed

lemma extrair_keeps:
  assumes "extrair_dados_evento raw = Some e"
  shows "record_id e = RecordId raw \<and> machine e = MachineName raw"
proof -
  from assms obtain m where m: "Message raw = Some m"
    by (auto simp: extrair_dados_evento_def split: option.splits)
  let ?d0 = "\<lparr>record_id = RecordId raw, date = TimeCreated raw,
                        user = ''Desconhecido'', machine = MachineName raw, pages = 1,
                        document = ''Documento'', printer = ''Impressora''\<rparr>"
  let ?ramo = "if eh_portugues m then ramo_portugues m ?d0 else ramo_ingles m ?d0"
  from assms m obtain d2 where d2: "entao ?ramo
         (\<lambda>dados. if pages dados = 1
                        then (case busca_generica patterns m of
                                Inl e \<Rightarrow> Inl e
                              | Inr None \<Rightarrow> Inr dados
                              | Inr (Some v) \<Rightarrow> Inr (dados\<lparr>pages := v\<rparr>))
                        else Inr dados) = Inr d2"
    "e = (if pages d2 < 1 \<or> pages d2 > 10000 then d2\<lparr>pages := 1\<rparr> else d2)"
    by (auto simp: extrair_dados_evento_def Let_def split: sum.splits)
  from entao_Inr [OF d2(1)] obtain d1 where d1: "?ramo = Inr d1"
    "(if pages d1 = 1
                        then (case busca_generica patterns m of
                                Inl e \<Rightarrow> Inl e
                              | Inr None \<Rightarrow> Inr d1
                              | Inr (Some v) \<Rightarrow> Inr (d1\<lparr>pages := v\<rparr>))
                        else Inr d1) = Inr d2" by blast
  from d1(1) have k1: "record_id d1 = RecordId raw \<and> machine d1 = MachineName raw"
    using ramo_portugues_keeps [of m ?d0 d1] ramo_ingles_keeps [of m ?d0 d1]
    by (auto split: if_splits)
  from d1(2) have k2: "record_id d2 = record_id d1 \<and> machine d2 = machine d1"
    by (auto split: if_splits sum.splits option.splits)
  from d2(2) k1 k2 show ?thesis by (auto split: if_splits)
qed

lemma id_local: "id_do_raw m raw = criar_id_unico m (RecordId raw) None" if "MachineName raw = m"
  using that by (simp add: id_do_raw_def criar_id_unico_def)

lemma aceitar_step:
  assumes "aceitar (s, n0) raw = (s1, n1)"
  shows "so_conjunto s s1 \<and>
    (n1 = n0 \<and> s1 = s \<or>
     (\<exists>e. n1 = n0 @ [e] \<and> extrair_dados_evento raw = Some e \<and>
          id_do_raw (machine_name s) raw \<notin> eventos_processados s \<and>
          MachineName raw = machine_name s \<and> RecordId raw > highest_record_id s \<and>
          eventos_processados s1 = insert (id_do_raw (machine_name s) raw) (eventos_processados s)))"
  using assms
  by (auto simp: aceitar_def Let_def so_conjunto_def split: if_splits option.splits)

lemma so_conjunto_trans: "so_conjunto a b \<Longrightarrow> so_conjunto b c \<Longrightarrow> so_conjunto a c"
  by (auto simp: so_conjunto_def)

lemma so_conjunto_refl: "so_conjunto a a"
  by (simp add: so_conjunto_def)

lemma foldl_aceitar:
  "so_conjunto s (fst (foldl aceitar (s, n0) raws)) \<and>
   (\<forall>e \<in> set (snd (foldl aceitar (s, n0) raws)). e \<in> set n0 \<or> aceito s raws e) \<and>
   (buffer_ok s (buf @ n0) \<longrightarrow>
      buffer_ok (fst (foldl aceitar (s, n0) raws)) (buf @ snd (foldl aceitar (s, n0) raws)))"
proof (induction raws arbitrary: s n0)
  case Nil
  then show ?case by (simp add: so_conjunto_refl)
next
  case (Cons raw raws)
  obtain s1 n1 where st: "aceitar (s, n0) raw = (s1, n1)" by (cases "aceitar (s, n0) raw")
  note a = aceitar_step [OF st]
  from a have c1: "so_conjunto s s1" by simp
  note ih = Cons.IH [of s1 n1]
  have f: "foldl aceitar (s, n0) (raw # raws) = foldl aceitar (s1, n1) raws" by (simp add: st)
  have p1: "so_conjunto s (fst (foldl aceitar (s1, n1) raws))"
    using c1 ih so_conjunto_trans by blast
  have mono: "aceito s1 raws e \<Longrightarrow> aceito s (raw # raws) e" for e
    using c1 by (auto simp: aceito_def so_conjunto_def)
  have p2: "\<forall>e \<in> set (snd (foldl aceitar (s1, n1) raws)). e \<in> set n0 \<or> aceito s (raw # raws) e"
  proof
    fix e assume "e \<in> set (snd (foldl aceitar (s1, n1) raws))"
    with ih have "e \<in> set n1 \<or> aceito s1 raws e" by blast
    then show "e \<in> set n0 \<or> aceito s (raw # raws) e"
    proof
      assume "e \<in> set n1"
      with a show ?thesis by (auto simp: aceito_def)
    next
      assume "aceito s1 raws e" then show ?thesis using mono by blast
    qed
  qed
  have p3: "buffer_ok (fst (foldl aceitar (s1, n1) raws)) (buf @ snd (foldl aceitar (s1, n1) raws))"
    if b: "buffer_ok s (buf @ n0)"
  proof -
    have "buffer_ok s1 (buf @ n1)"
    proof -
      from a consider "n1 = n0" "s1 = s"
        | e where "n1 = n0 @ [e]" "extrair_dados_evento raw = Some e"
          "id_do_raw (machine_name s) raw \<notin> eventos_processados s"
          "MachineName raw = machine_name s"
          "eventos_processados s1 = insert (id_do_raw (machine_name s) raw) (eventos_processados s)"
        by blast
      then show ?thesis
      proof cases
        case 1
        with b show ?thesis by simp
      next
        case 2
        from extrair_keeps [OF 2(2)] have k: "record_id e = RecordId raw" "machine e = MachineName raw"
          by simp_all
        have ide: "id_do_evento (machine_name s) e = id_do_raw (machine_name s) raw"
          using k 2(4) by (simp add: id_do_evento_def id_local)
        have m1: "machine_name s1 = machine_name s" using c1 by (simp add: so_conjunto_def)
        have fresh: "record_id e \<notin> record_id ` set (buf @ n0)"
        proof
          assume "record_id e \<in> record_id ` set (buf @ n0)"
          then obtain e' where e': "e' \<in> set (buf @ n0)" "record_id e' = record_id e"
            by (metis imageE)
          with b have "id_do_evento (machine_name s) e' \<in> eventos_processados s"
            by (auto simp: buffer_ok_def)
          moreover have "id_do_evento (machine_name s) e' = id_do_evento (machine_name s) e"
            using e'(2) by (simp add: id_do_evento_def)
          ultimately show False using ide 2(3) by simp
        qed
        show ?thesis
          using b fresh 2(1,4,5) k ide m1
          by (auto simp: buffer_ok_def)
      qed
    qed
    with ih show ?thesis by blast
  qed
  from p1 p2 p3 show ?case unfolding f by blast
qed

lemma filtro_tick:
  "so_conjunto s (apos_filtro s raws) \<and>
   (\<forall>e \<in> set (novos_do_tick s raws). aceito s raws e) \<and>
   (buffer_ok s buf \<longrightarrow> buffer_ok (apos_filtro s raws) (buf @ novos_do_tick s raws))"
  using foldl_aceitar [of s "[]" raws buf]
  by (simp add: apos_filtro_def novos_do_tick_def)

lemma confirmar_fields:
  "machine_name (confirmar s e) = machine_name s" "arquivo (confirmar s e) = arquivo s"
  "n_posts (confirmar s e) = n_posts s" "historico (confirmar s e) = historico s"
  "max_retries (confirmar s e) = max_retries s" "batch_size (confirmar s e) = batch_size s"
  "eventos_processados (confirmar s e)
     = insert (id_do_evento (machine_name s) e) (eventos_processados s)"
  "highest_record_id (confirmar s e) = max (highest_record_id s) (record_id e)"
  by (simp_all add: confirmar_def Let_def id_do_evento_def max_def)

lemma foldl_confirmar:
  "machine_name (foldl confirmar s b) = machine_name s \<and>
   arquivo (foldl confirmar s b) = arquivo s \<and>
   n_posts (foldl confirmar s b) = n_posts s \<and>
   historico (foldl confirmar s b) = historico s \<and>
   max_retries (foldl confirmar s b) = max_retries s \<and>
   batch_size (foldl confirmar s b) = batch_size s \<and>
   highest_record_id s \<le> highest_record_id (foldl confirmar s b) \<and>
   (\<forall>e \<in> set b. record_id e \<le> highest_record_id (foldl confirmar s b)) \<and>
   (highest_record_id (foldl confirmar s b) = highest_record_id s \<or>
    highest_record_id (foldl confirmar s b) \<in> record_id ` set b)"
proof (induction b arbitrary: s)
  case Nil
  then show ?case by simp
next
  case (Cons e b)
  from Cons.IH [of "confirmar s e"] show ?case
    by (simp add: confirmar_fields) linarith
qed

lemma limpar_cache_ok: "limpar_cache s = Inr s' \<Longrightarrow> s' = s"
proof -
  assume a: "limpar_cache s = Inr s'"
  show "s' = s"
  proof (cases "card (eventos_processados s) > 10000")
    case False
    with a show ?thesis by (simp add: limpar_cache_def)
  next
    case True
    then have "eventos_processados s \<noteq> {}" by auto
    then obtain x where "x \<in> eventos_processados s" by blast
    then have "\<exists>rid \<in> eventos_processados s.
        py_gt (PStr rid) (PInt (highest_record_id s - 5000)) = Inl TypeError" by auto
    with a True show ?thesis by (simp add: limpar_cache_def)
  qed
qed

lemma tick_cases:
  assumes "tick http raws (s, buf) = ((s', buf'), exc)"
  shows "(buffer_do_tick s buf raws = [] \<and> s' = apos_filtro s raws \<and> buf' = []) \<or>
    (buffer_do_tick s buf raws \<noteq> [] \<and>
     fst (send_events http (apos_filtro s raws) (map sem_record_id (buffer_do_tick s buf raws))) \<and>
     s' = salvar_eventos_processados (foldl confirmar
            (snd (send_events http (apos_filtro s raws)
                   (map sem_record_id (buffer_do_tick s buf raws))))
            (buffer_do_tick s buf raws)) \<and>
     buf' = []) \<or>
    (buffer_do_tick s buf raws \<noteq> [] \<and>
     \<not> fst (send_events http (apos_filtro s raws) (map sem_record_id (buffer_do_tick s buf raws))) \<and>
     s' = snd (send_events http (apos_filtro s raws)
                (map sem_record_id (buffer_do_tick s buf raws))) \<and>
     buf' = (if length (buffer_do_tick s buf raws) > 1000
             then ultimos 500 (buffer_do_tick s buf raws) else buffer_do_tick s buf raws))"
proof -
  obtain sa nov where f: "foldl aceitar (s, []) raws = (sa, nov)"
    by (cases "foldl aceitar (s, []) raws")
  then have sa: "apos_filtro s raws = sa" and nov: "novos_do_tick s raws = nov"
    by (simp_all add: apos_filtro_def novos_do_tick_def)
  have b: "(if nov \<noteq> [] then buf @ nov else buf) = buf @ nov" by simp
  obtain s2 b2 where e: "entregar_buffer http (sa, buf @ nov) = (s2, b2)"
    by (cases "entregar_buffer http (sa, buf @ nov)")
  from assms have t: "(case limpar_cache s2 of Inl x \<Rightarrow> ((s2, b2), Some x)
                        | Inr s3 \<Rightarrow> ((s3, b2), None)) = ((s', buf'), exc)"
    by (simp add: tick_def f b e del: append_is_Nil_conv)
  have s2: "s' = s2 \<and> buf' = b2"
  proof (cases "limpar_cache s2")
    case (Inl x)
    with t show ?thesis by simp
  next
    case (Inr s3)
    with t limpar_cache_ok [OF Inr] show ?thesis by simp
  qed
  from e s2 show ?thesis
    unfolding buffer_do_tick_def sa nov
    by (auto simp: entregar_buffer_def Let_def split: if_splits)
qed


lemma buffer_ok_so_envio: "so_envio s s' \<Longrightarrow> buffer_ok s b \<Longrightarrow> buffer_ok s' b"
  by (simp add: so_envio_def buffer_ok_def)

lemma buffer_ok_drop: "buffer_ok s b \<Longrightarrow> buffer_ok s (drop n b)"
  by (auto simp: buffer_ok_def distinct_drop drop_map [symmetric] dest: in_set_dropD)

lemma buffer_ok_nil: "buffer_ok s []"
  by (simp add: buffer_ok_def)

lemma tick_buffer_ok:
  assumes "buffer_ok s buf" and "tick http raws (s, buf) = ((s', buf'), exc)"
  shows "buffer_ok s' buf'"
proof -
  let ?sa = "apos_filtro s raws" and ?b = "buffer_do_tick s buf raws"
  have ok: "buffer_ok ?sa ?b"
    using filtro_tick [of s raws buf] assms(1) by (simp add: buffer_do_tick_def)
  from tick_cases [OF assms(2)] show ?thesis
  proof (elim disjE conjE)
    assume "buf' = []" then show ?thesis by (simp add: buffer_ok_nil)
  next
    assume "buf' = []" then show ?thesis by (simp add: buffer_ok_nil)
  next
    assume s': "s' = snd (send_events http ?sa (map sem_record_id ?b))"
      and b': "buf' = (if length ?b > 1000 then ultimos 500 ?b else ?b)"
    have "buffer_ok s' ?b"
      unfolding s' using ok send_events_so_envio buffer_ok_so_envio by blast
    then show ?thesis unfolding b' by (simp add: ultimos_def buffer_ok_drop)
  qed
qed

lemma tick_machine_name:
  assumes "tick http raws (s, buf) = ((s', buf'), exc)"
  shows "machine_name s' = machine_name s"
proof -
  let ?sa = "apos_filtro s raws" and ?b = "buffer_do_tick s buf raws"
  have a: "machine_name ?sa = machine_name s"
    using filtro_tick [of s raws buf] by (simp add: so_conjunto_def)
  have b: "machine_name (snd (send_events http ?sa ev)) = machine_name s" for ev
    using send_events_so_envio [of ?sa http ev] a by (simp add: so_envio_def)
  from tick_cases [OF assms] show ?thesis
    using a b by (auto simp: salvar_fields foldl_confirmar)
qed

lemma tick_historico:
  assumes "tick http raws (s, buf) = ((s', buf'), exc)"
  shows "\<exists>h. historico s' = historico s @ h \<and>
    (\<forall>a \<in> set h. a = Sleep 5 \<or>
       (\<exists>r. a = Post (map sem_record_id (buffer_do_tick s buf raws)) r))"
proof -
  let ?sa = "apos_filtro s raws" and ?b = "buffer_do_tick s buf raws"
  have a: "historico ?sa = historico s"
    using filtro_tick [of s raws buf] by (simp add: so_conjunto_def)
  from send_events_hist [of http ?sa "map sem_record_id ?b"] a
  obtain h where h: "historico (snd (send_events http ?sa (map sem_record_id ?b))) = historico s @ h"
    "\<forall>a \<in> set h. a = Sleep 5 \<or> (\<exists>r. a = Post (map sem_record_id ?b) r)"
    by auto
  from tick_cases [OF assms]
  have "historico s' = historico s \<or> historico s' = historico s @ h"
    using a h(1) by (auto simp: salvar_fields foldl_confirmar)
  then show ?thesis
  proof
    assume "historico s' = historico s"
    then have "historico s' = historico s @ []" by simp
    then show ?thesis by (metis empty_iff empty_set)
  next
    assume "historico s' = historico s @ h"
    with h(2) show ?thesis by blast
  qed
qed

lemma tick_bloqueia:
  assumes "buffer_ok s buf" and "tick http raws (s, buf) = ((s', buf'), exc)"
    and "e \<in> set (buffer_do_tick s buf raws)"
  shows "id_do_evento (machine_name s') e \<in> eventos_processados s' \<or>
         record_id e \<le> highest_record_id s'"
proof -
  let ?sa = "apos_filtro s raws" and ?b = "buffer_do_tick s buf raws"
  have ok: "buffer_ok ?sa ?b"
    using filtro_tick [of s raws buf] assms(1) by (simp add: buffer_do_tick_def)
  from assms(3) have ne: "?b \<noteq> []" by auto
  from tick_cases [OF assms(2)] ne consider
    (ok) "s' = salvar_eventos_processados (foldl confirmar
            (snd (send_events http ?sa (map sem_record_id ?b))) ?b)"
    | (falha) "s' = snd (send_events http ?sa (map sem_record_id ?b))"
    by blast
  then show ?thesis
  proof cases
    case ok
    have "record_id e \<le> highest_record_id s'"
      unfolding ok using foldl_confirmar assms(3) by (simp add: salvar_fields)
    then show ?thesis by simp
  next
    case falha
    have "buffer_ok s' ?b"
      unfolding falha using ok send_events_so_envio buffer_ok_so_envio by blast
    with assms(3) show ?thesis by (simp add: buffer_ok_def)
  qed
qed

lemma novos_bloqueados:
  assumes "e2 \<in> set (novos_do_tick s raws)"
  shows "id_do_evento (machine_name s) e2 \<notin> eventos_processados s \<and>
         record_id e2 > highest_record_id s"
proof -
  from filtro_tick [of s raws "[]"] assms have "aceito s raws e2" by blast
  then obtain raw where raw: "extrair_dados_evento raw = Some e2"
    "id_do_raw (machine_name s) raw \<notin> eventos_processados s"
    "MachineName raw = machine_name s" "RecordId raw > highest_record_id s"
    by (auto simp: aceito_def)
  from extrair_keeps [OF raw(1)] have k: "record_id e2 = RecordId raw" by simp
  have "id_do_evento (machine_name s) e2 = id_do_raw (machine_name s) raw"
    using k raw(3) by (simp add: id_do_evento_def id_local)
  with raw(2,4) k show ?thesis by simp
qed

text \<open>
  Claim C4. Take a tick of the polling loop that starts with a buffer of distinct local
  events whose identities are in the set of processed identities (\<open>buffer_ok\<close>, which
  holds of the empty buffer and which every tick keeps). Every event the tick accepts is
  the extraction of a fetched event whose identity was not in the set, that is from the
  local host and whose sequence number is above the high-water mark. The buffer the tick
  delivers, the old buffer followed by the accepted events, holds no sequence number
  twice, also when the fetch returns an event that is buffered already or returns an
  event twice; every request of the tick carries exactly that buffer, so each event once.
  Whatever the delivery gave, the next tick accepts none of these events again.
\<close>

theorem tick_sem_duplicatas:
  assumes "buffer_ok s buf" and "tick http raws (s, buf) = ((s', buf'), exc)"
  shows "(\<forall>e \<in> set (novos_do_tick s raws). aceito s raws e) \<and>
    distinct (map record_id (buffer_do_tick s buf raws)) \<and>
    buffer_ok s' buf' \<and>
    (\<exists>h. historico s' = historico s @ h \<and>
       (\<forall>a \<in> set h. a = Sleep 5 \<or>
          (\<exists>r. a = Post (map sem_record_id (buffer_do_tick s buf raws)) r))) \<and>
    (\<forall>raws2. \<forall>e \<in> set (buffer_do_tick s buf raws). \<forall>e2 \<in> set (novos_do_tick s' raws2).
       record_id e2 \<noteq> record_id e)"
proof -
  have a: "\<forall>e \<in> set (novos_do_tick s raws). aceito s raws e"
    using filtro_tick [of s raws buf] by blast
  have "buffer_ok (apos_filtro s raws) (buffer_do_tick s buf raws)"
    using filtro_tick [of s raws buf] assms(1) by (simp add: buffer_do_tick_def)
  then have b: "distinct (map record_id (buffer_do_tick s buf raws))"
    by (simp add: buffer_ok_def)
  have c: "buffer_ok s' buf'" by (rule tick_buffer_ok [OF assms])
  note d = tick_historico [OF assms(2)]
  have e: "record_id e2 \<noteq> record_id e"
    if "e \<in> set (buffer_do_tick s buf raws)" "e2 \<in> set (novos_do_tick s' raws2)" for raws2 e e2
  proof
    assume eq: "record_id e2 = record_id e"
    from novos_bloqueados [OF that(2)]
    have n: "id_do_evento (machine_name s') e2 \<notin> eventos_processados s'"
      "record_id e2 > highest_record_id s'" by simp_all
    have "id_do_evento (machine_name s') e2 = id_do_evento (machine_name s') e"
      using eq by (simp add: id_do_evento_def)
    with tick_bloqueia [OF assms that(1)] n eq show False by auto
  qed
  from a b c d e show ?thesis by blast
qed

lemma tick_highest:
  assumes "tick http raws (s, buf) = ((s', buf'), exc)"
  shows "highest_record_id s \<le> highest_record_id s' \<and>
    (highest_record_id s' \<noteq> highest_record_id s \<longrightarrow>
       fst (send_events http (apos_filtro s raws)
              (map sem_record_id (buffer_do_tick s buf raws))) \<and>
       highest_record_id s' \<in> record_id ` set (buffer_do_tick s buf raws))"
proof -
  let ?sa = "apos_filtro s raws" and ?b = "buffer_do_tick s buf raws"
  let ?s1 = "snd (send_events http ?sa (map sem_record_id ?b))"
  have a: "highest_record_id ?sa = highest_record_id s"
    using filtro_tick [of s raws buf] by (simp add: so_conjunto_def)
  have b: "highest_record_id ?s1 = highest_record_id s"
    using send_events_so_envio [of ?sa http "map sem_record_id ?b"] a by (simp add: so_envio_def)
  from tick_cases [OF assms] consider
    "s' = ?sa" | "s' = ?s1"
    | "fst (send_events http ?sa (map sem_record_id ?b))"
      "s' = salvar_eventos_processados (foldl confirmar ?s1 ?b)"
    by blast
  then show ?thesis
  proof cases
    case 1 then show ?thesis using a by simp
  next
    case 2 then show ?thesis using b by simp
  next
    case 3
    from foldl_confirmar [of ?s1 ?b] b
    have "highest_record_id s \<le> highest_record_id (foldl confirmar ?s1 ?b)"
      "highest_record_id (foldl confirmar ?s1 ?b) = highest_record_id s \<or>
       highest_record_id (foldl confirmar ?s1 ?b) \<in> record_id ` set ?b"
      by simp_all
    with 3 show ?thesis by (auto simp: salvar_fields)
  qed
qed


subsection \<open>The high-water mark, the final save and the clean-up of the cache\<close>

theorem tick_sem_duplicatas_witness:
  "buffer_ok monitor_exemplo [] \<and>
   map record_id (buffer_do_tick monitor_exemplo []
      [raw_n 42 ''PC1'' (Some []), raw_n 42 ''PC1'' (Some [])]) = [42] \<and>
   distinct (map record_id (buffer_do_tick monitor_exemplo []
      [raw_n 42 ''PC1'' (Some []), raw_n 42 ''PC1'' (Some [])])) \<and>
   buffer_ok
     (fst (fst (tick (\<lambda>n. Timeout) [raw_n 42 ''PC1'' (Some []), raw_n 42 ''PC1'' (Some [])]
                  (monitor_exemplo, []))))
     (snd (fst (tick (\<lambda>n. Timeout) [raw_n 42 ''PC1'' (Some []), raw_n 42 ''PC1'' (Some [])]
                  (monitor_exemplo, [])))) \<and>
   novos_do_tick
     (fst (fst (tick (\<lambda>n. Timeout) [raw_n 42 ''PC1'' (Some []), raw_n 42 ''PC1'' (Some [])]
                  (monitor_exemplo, []))))
     [raw_n 42 ''PC1'' (Some [])] = []"
proof -
  let ?raws = "[raw_n 42 ''PC1'' (Some []), raw_n 42 ''PC1'' (Some [])]"
  let ?t = "tick (\<lambda>n. Timeout) ?raws (monitor_exemplo, [])"
  have h1: "buffer_ok monitor_exemplo []" by (simp add: buffer_ok_def)
  have h2: "?t = ((fst (fst ?t), snd (fst ?t)), snd ?t)" by simp
  have v: "map record_id (buffer_do_tick monitor_exemplo [] ?raws) = [42]" by code_simp
  have n: "novos_do_tick (fst (fst ?t)) [raw_n 42 ''PC1'' (Some [])] = []" by code_simp
  from tick_sem_duplicatas [OF h1 h2] h1 v n show ?thesis by blast
qed

lemma maior_id_mono: "a \<le> maior_id h a x"
  by (simp add: maior_id_def split: option.splits prod.splits)

lemma foldl_maior_id_mono: "a \<le> foldl (maior_id h) a xs"
proof (induction xs arbitrary: a)
  case Nil
  then show ?case by simp
next
  case (Cons x xs)
  have "a \<le> maior_id h a x" by (rule maior_id_mono)
  also have "\<dots> \<le> foldl (maior_id h) (maior_id h a x) xs" by (rule Cons.IH)
  finally show ?case by simp
qed

lemma init_highest: "0 \<le> highest_record_id (init a b c h arq)"
  by (simp add: init_def Let_def foldl_maior_id_mono)

lemma processar_nada:
  "extraidos s raws = [] \<Longrightarrow> processar_todos_eventos http raws s = Inr s"
  by (simp add: processar_todos_eventos_def Let_def extraidos_def)

lemma processar_erro:
  assumes "extraidos s raws \<noteq> []" and "send_events_batch http s (extraidos s raws) = Inl e"
  shows "processar_todos_eventos http raws s = Inl e"
proof -
  from assms(1) have "nao_processados s raws \<noteq> []" by (auto simp: extraidos_def List.map_filter_def)
  moreover from this have "raws \<noteq> []" by (auto simp: nao_processados_def)
  ultimately show ?thesis
    using assms by (simp add: processar_todos_eventos_def Let_def extraidos_def)
qed

lemma processar_highest:
  assumes "processar_todos_eventos http raws s = Inr s'"
  shows "highest_record_id s \<le> highest_record_id s' \<and>
    (highest_record_id s' \<noteq> highest_record_id s \<longrightarrow>
       (\<exists>s1. send_events_batch http s (extraidos s raws) = Inr (True, s1)) \<and>
       (\<exists>e \<in> set (nao_processados s raws).
           MachineName e = machine_name s \<and> RecordId e = highest_record_id s'))"
proof (cases "extraidos s raws = []")
  case True
  with assms processar_nada [OF True, of http] show ?thesis by simp
next
  case False
  show ?thesis
  proof (cases "send_events_batch http s (extraidos s raws)")
    case (Inl e)
    with processar_erro [OF False Inl] assms show ?thesis by simp
  next
    case (Inr p)
    obtain ok s1 where p: "p = (ok, s1)" by (cases p)
    show ?thesis
    proof (cases ok)
      case False
      with Inr p have f: "send_events_batch http s (extraidos s raws) = Inr (False, s1)" by simp
      from processar_falha [OF f] assms show ?thesis by (simp add: so_envio_def)
    next
      case True
      with Inr p have t: "send_events_batch http s (extraidos s raws) = Inr (True, s1)" by simp
      from send_events_batch_frame [OF t] have fr: "so_envio s s1" by simp
      let ?m = "foldl marcar s1 (nao_processados s raws)"
      from processar_sucesso [OF \<open>extraidos s raws \<noteq> []\<close> t] assms
      have s': "s' = salvar_eventos_processados ?m" by simp
      from foldl_marcar_highest [of s1 "nao_processados s raws"] fr
      have "highest_record_id s \<le> highest_record_id ?m"
        "highest_record_id ?m = highest_record_id s \<or>
           (\<exists>e \<in> set (nao_processados s raws). MachineName e = machine_name s \<and>
              RecordId e = highest_record_id ?m)"
        by (simp_all add: so_envio_def)
      with t show ?thesis unfolding s' by (auto simp: salvar_fields)
    qed
  qed
qed

lemma foldl_marcar_restante:
  "highest_record_id (foldl marcar_restante s b) = highest_record_id s"
  by (induction b arbitrary: s) (simp_all add: marcar_restante_def)

lemma drenar_highest: "highest_record_id (drenar http (s, buf)) = highest_record_id s"
proof -
  have "highest_record_id (snd (send_events http s ev)) = highest_record_id s" for ev
    using send_events_so_envio [of s http ev] by (simp add: so_envio_def)
  then show ?thesis
    by (simp add: drenar_def Let_def salvar_fields foldl_marcar_restante)
qed

lemma ticks_loop_highest:
  "highest_record_id (fst st) \<le> highest_record_id (fst (ticks_loop http ticks st))"
proof (induction ticks arbitrary: st)
  case Nil
  then show ?case by (simp add: ticks_loop_def)
next
  case (Cons raws ticks)
  obtain s buf where st: "st = (s, buf)" by (cases st)
  obtain s' buf' exc where t: "tick http raws (s, buf) = ((s', buf'), exc)"
    by (metis prod.exhaust)
  have step: "ticks_loop http (raws # ticks) (s, buf) = ticks_loop http ticks (s', buf')"
    by (simp add: ticks_loop_def t)
  from tick_highest [OF t] have "highest_record_id s \<le> highest_record_id s'" by simp
  also have "\<dots> \<le> highest_record_id (fst (ticks_loop http ticks (s', buf')))"
    using Cons.IH [of "(s', buf')"] by simp
  finally show ?case unfolding st step by simp
qed

lemma monitor_events_highest:
  assumes "monitor_events http todos ticks s = Inr s'"
  shows "highest_record_id s \<le> highest_record_id s'"
proof -
  obtain s0 where s0: "(if process_all_on_start s then processar_todos_eventos http todos s
                        else Inr s) = Inr s0"
    and s': "s' = drenar http (ticks_loop http ticks (s0, []))"
    using assms by (auto simp: monitor_events_def split: sum.splits)
  have "highest_record_id s \<le> highest_record_id s0"
  proof (cases "process_all_on_start s")
    case True
    with s0 processar_highest [of http todos s s0] show ?thesis by simp
  next
    case False
    with s0 show ?thesis by simp
  qed
  also have "\<dots> \<le> highest_record_id (fst (ticks_loop http ticks (s0, [])))"
    using ticks_loop_highest [of "(s0, [])" http ticks] by simp
  also have "\<dots> = highest_record_id s'"
    unfolding s' using drenar_highest [of http "fst (ticks_loop http ticks (s0, []))"
        "snd (ticks_loop http ticks (s0, []))"] by simp
  finally show ?thesis .
qed

text \<open>
  Claim C8, as amended. The high-water mark starts at 0 or above (the loop of
  \<^verbatim>\<open>__init__\<close> only raises it) and no step of the process lowers it: not the catch-up
  pass, not a tick, not the draining, so not a whole run. The catch-up pass changes it
  only when \<^verbatim>\<open>send_events_batch\<close> reported success, and then to the sequence number
  of an event of the pass that is from the local host and was not processed before
  (extracted or not). A tick changes it only when the delivery of its buffer succeeded,
  and then to the sequence number of a local event of that buffer. The draining leaves
  it as it is.
\<close>

theorem highest_record_id_nao_decresce:
  "0 \<le> highest_record_id (init a b c h arq) \<and>
   (\<forall>s'. processar_todos_eventos http raws s = Inr s' \<longrightarrow>
      highest_record_id s \<le> highest_record_id s' \<and>
      (highest_record_id s' \<noteq> highest_record_id s \<longrightarrow>
         (\<exists>s1. send_events_batch http s (extraidos s raws) = Inr (True, s1)) \<and>
         (\<exists>e \<in> set (nao_processados s raws).
             MachineName e = machine_name s \<and> RecordId e = highest_record_id s'))) \<and>
   (\<forall>s' buf' exc. buffer_ok s buf \<and> tick http raws (s, buf) = ((s', buf'), exc) \<longrightarrow>
      highest_record_id s \<le> highest_record_id s' \<and>
      (highest_record_id s' \<noteq> highest_record_id s \<longrightarrow>
         fst (send_events http (apos_filtro s raws)
                (map sem_record_id (buffer_do_tick s buf raws))) \<and>
         (\<exists>e \<in> set (buffer_do_tick s buf raws).
             machine e = machine_name s \<and> record_id e = highest_record_id s'))) \<and>
   highest_record_id (drenar http (s, buf)) = highest_record_id s \<and>
   (\<forall>s'. monitor_events http todos ticks s = Inr s' \<longrightarrow>
      highest_record_id s \<le> highest_record_id s')"
proof -
  have t: "highest_record_id s \<le> highest_record_id s' \<and>
      (highest_record_id s' \<noteq> highest_record_id s \<longrightarrow>
         fst (send_events http (apos_filtro s raws)
                (map sem_record_id (buffer_do_tick s buf raws))) \<and>
         (\<exists>e \<in> set (buffer_do_tick s buf raws).
             machine e = machine_name s \<and> record_id e = highest_record_id s'))"
    if ok: "buffer_ok s buf" and tk: "tick http raws (s, buf) = ((s', buf'), exc)" for s' buf' exc
  proof -
    have "buffer_ok (apos_filtro s raws) (buffer_do_tick s buf raws)"
      using filtro_tick [of s raws buf] ok by (simp add: buffer_do_tick_def)
    moreover have "machine_name (apos_filtro s raws) = machine_name s"
      using filtro_tick [of s raws buf] by (simp add: so_conjunto_def)
    ultimately have loc: "\<forall>e \<in> set (buffer_do_tick s buf raws). machine e = machine_name s"
      by (simp add: buffer_ok_def)
    from tick_highest [OF tk] loc show ?thesis by auto
  qed
  from init_highest processar_highest t drenar_highest monitor_events_highest
  show ?thesis by blast
qed


lemma sum_caso_inr:
  "(case x of Inl e \<Rightarrow> False | Inr y \<Rightarrow> P y) \<Longrightarrow> \<exists>y. x = Inr y \<and> P y"
  by (cases x) auto

theorem highest_record_id_nao_decresce_witness:
  "highest_record_id monitor_exemplo = 0 \<and>
   (\<exists>s'. processar_todos_eventos (\<lambda>n. Status 200 True) [raw_n 7 ''PC1'' (Some [])]
            monitor_exemplo = Inr s' \<and>
      highest_record_id s' = 7 \<and>
      (\<exists>s1. send_events_batch (\<lambda>n. Status 200 True) monitor_exemplo
               (extraidos monitor_exemplo [raw_n 7 ''PC1'' (Some [])]) = Inr (True, s1)) \<and>
      (\<exists>e \<in> set (nao_processados monitor_exemplo [raw_n 7 ''PC1'' (Some [])]).
          MachineName e = ''PC1'' \<and> RecordId e = 7)) \<and>
   buffer_ok monitor_exemplo [] \<and>
   highest_record_id
     (fst (fst (tick (\<lambda>n. Status 200 True) [raw_n 42 ''PC1'' (Some [])] (monitor_exemplo, []))))
     = 42 \<and>
   fst (send_events (\<lambda>n. Status 200 True)
         (apos_filtro monitor_exemplo [raw_n 42 ''PC1'' (Some [])])
         (map sem_record_id (buffer_do_tick monitor_exemplo [] [raw_n 42 ''PC1'' (Some [])]))) \<and>
   (\<exists>e \<in> set (buffer_do_tick monitor_exemplo [] [raw_n 42 ''PC1'' (Some [])]).
       machine e = ''PC1'' \<and> record_id e = 42) \<and>
   monitor_events (\<lambda>n. Status 200 True) [] [[raw_n 42 ''PC1'' (Some [])]] monitor_exemplo
     = Inr (drenar (\<lambda>n. Status 200 True)
              (ticks_loop (\<lambda>n. Status 200 True) [[raw_n 42 ''PC1'' (Some [])]]
                 (monitor_exemplo, []))) \<and>
   0 \<le> highest_record_id
         (drenar (\<lambda>n. Status 200 True)
            (ticks_loop (\<lambda>n. Status 200 True) [[raw_n 42 ''PC1'' (Some [])]]
               (monitor_exemplo, [])))"
proof -
  let ?h = "\<lambda>n::nat. Status 200 True"
  let ?raws = "[raw_n 7 ''PC1'' (Some [])]"
  let ?r42 = "[raw_n 42 ''PC1'' (Some [])]"
  let ?t = "tick ?h ?r42 (monitor_exemplo, [])"
  let ?fim = "drenar ?h (ticks_loop ?h [?r42] (monitor_exemplo, []))"
  note f1 = highest_record_id_nao_decresce
    [of 3 50 True "''PC1''" None ?h ?raws monitor_exemplo "[]"]
  note f2 = highest_record_id_nao_decresce
    [of 3 50 True "''PC1''" None ?h ?r42 monitor_exemplo "[]" "[]" "[?r42]"]
  have "case processar_todos_eventos ?h ?raws monitor_exemplo of
          Inl e \<Rightarrow> False | Inr s' \<Rightarrow> highest_record_id s' = 7"
    by code_simp
  from sum_caso_inr [OF this] obtain s' where s':
    "processar_todos_eventos ?h ?raws monitor_exemplo = Inr s'"
    "highest_record_id s' = 7" by blast
  have z: "highest_record_id monitor_exemplo = 0" "machine_name monitor_exemplo = ''PC1''"
    by (simp_all add: monitor_exemplo_fields)
  from f1 [THEN conjunct2, THEN conjunct1, rule_format, OF s'(1)] s' z
  have a: "\<exists>s'. processar_todos_eventos ?h ?raws monitor_exemplo = Inr s' \<and>
      highest_record_id s' = 7 \<and>
      (\<exists>s1. send_events_batch ?h monitor_exemplo (extraidos monitor_exemplo ?raws) = Inr (True, s1)) \<and>
      (\<exists>e \<in> set (nao_processados monitor_exemplo ?raws). MachineName e = ''PC1'' \<and> RecordId e = 7)"
    by auto
  have ok: "buffer_ok monitor_exemplo []" by (simp add: buffer_ok_def)
  have tk: "?t = ((fst (fst ?t), snd (fst ?t)), snd ?t)" by simp
  have hv: "highest_record_id (fst (fst ?t)) = 42" by code_simp
  from f2 [THEN conjunct2, THEN conjunct2, THEN conjunct1, rule_format, OF conjI, OF ok tk] hv z
  have b: "fst (send_events ?h (apos_filtro monitor_exemplo ?r42)
         (map sem_record_id (buffer_do_tick monitor_exemplo [] ?r42))) \<and>
   (\<exists>e \<in> set (buffer_do_tick monitor_exemplo [] ?r42). machine e = ''PC1'' \<and> record_id e = 42)"
    by simp
  have run: "monitor_events ?h [] [?r42] monitor_exemplo = Inr ?fim"
    by (simp add: monitor_events_def processar_todos_eventos_def)
  from f2 [THEN conjunct2, THEN conjunct2, THEN conjunct2, THEN conjunct2, rule_format, OF run] z
  have c: "0 \<le> highest_record_id ?fim" by simp
  from z(1) a ok hv b run c show ?thesis by blast
qed

text \<open>
  Claim C8 as stated fails in the catch-up pass: of the local events 7 and 9 the second
  has no message, so only event 7 is extracted and sent; the delivery is confirmed and
  the mark goes to 9, the number of an event that no delivery carried.
\<close>

theorem highest_record_id_evento_nao_enviado:
  "highest_record_id monitor_exemplo = 0 \<and>
   extrair_dados_evento (raw_n 9 ''PC1'' None) = None \<and>
   (case processar_todos_eventos (\<lambda>n. Status 200 True)
           [raw_n 7 ''PC1'' (Some []), raw_n 9 ''PC1'' None] monitor_exemplo of
      Inl e \<Rightarrow> False
    | Inr s' \<Rightarrow>
        highest_record_id s' = 9 \<and>
        historico s'
          = [Post [sem_record_id (the (extrair_dados_evento (raw_n 7 ''PC1'' (Some []))))]
               (Status 200 True)])"
proof -
  have a: "highest_record_id monitor_exemplo = 0" by (simp add: monitor_exemplo_fields)
  have b: "extrair_dados_evento (raw_n 9 ''PC1'' None) = None"
    by (simp add: extrair_dados_evento_def raw_n_def)
  have c: "case processar_todos_eventos (\<lambda>n. Status 200 True)
           [raw_n 7 ''PC1'' (Some []), raw_n 9 ''PC1'' None] monitor_exemplo of
      Inl e \<Rightarrow> False
    | Inr s' \<Rightarrow>
        highest_record_id s' = 9 \<and>
        historico s'
          = [Post [sem_record_id (the (extrair_dados_evento (raw_n 7 ''PC1'' (Some []))))]
               (Status 200 True)]"
    by code_simp
  from a b c show ?thesis by simp
qed

text \<open>
  Claim C1 fails on the code. A tick buffers event 42, whose identity the filter adds
  to the set of processed identities; its three requests fail, the process is
  interrupted, the three requests of the draining fail as well, and the final save
  writes the identity \<^verbatim>\<open>PC1_42\<close> to the state file although no request was confirmed.
\<close>

theorem identidade_gravada_sem_entrega:
  "(case monitor_events (\<lambda>n. ConnectionError) [] [[raw_n 42 ''PC1'' (Some [])]]
          monitor_exemplo of
      Inl e \<Rightarrow> False
    | Inr s' \<Rightarrow>
        arquivo s' = Some {PidStr ''PC1_42''} \<and> confirmadas (historico s') = [] \<and>
        n_posts s' = 6)"
  by code_simp

lemma limpar_cache_grande:
  assumes "card (eventos_processados s) > 10000"
  shows "limpar_cache s = Inl TypeError"
proof -
  from assms have "eventos_processados s \<noteq> {}" by auto
  then obtain x where "x \<in> eventos_processados s" by blast
  then have "\<exists>rid \<in> eventos_processados s.
      py_gt (PStr rid) (PInt (highest_record_id s - 5000)) = Inl TypeError" by auto
  with assms show ?thesis by (simp add: limpar_cache_def)
qed

lemma tick_limpeza:
  assumes "tick http raws (s, buf) = ((s', buf'), exc)"
  shows "exc = (case limpar_cache s' of Inl e \<Rightarrow> Some e | Inr x \<Rightarrow> None)"
proof -
  obtain sa nov where f: "foldl aceitar (s, []) raws = (sa, nov)"
    by (cases "foldl aceitar (s, []) raws")
  obtain s2 b2 where e: "entregar_buffer http (sa, buf @ nov) = (s2, b2)"
    by (cases "entregar_buffer http (sa, buf @ nov)")
  have b: "(if nov \<noteq> [] then buf @ nov else buf) = buf @ nov" by simp
  from assms have t: "(case limpar_cache s2 of Inl x \<Rightarrow> ((s2, b2), Some x)
                        | Inr s3 \<Rightarrow> ((s3, b2), None)) = ((s', buf'), exc)"
    by (simp add: tick_def f b e del: append_is_Nil_conv)
  show ?thesis
  proof (cases "limpar_cache s2")
    case (Inl x)
    with t show ?thesis by auto
  next
    case (Inr s3)
    with t limpar_cache_ok [OF Inr] show ?thesis by auto
  qed
qed

text \<open>
  Claim C2 fails on the code. Whenever the set of processed identities holds more than
  10000 entries at the end of a tick, the clean-up of the cache compares a string with an
  integer and raises \<^verbatim>\<open>TypeError\<close>, which the loop catches: the tick ends in the
  \<^verbatim>\<open>except\<close> branch and the set is left as it was.
\<close>

theorem limpeza_do_cache_levanta:
  assumes "tick http raws (s, buf) = ((s', buf'), exc)"
    and "card (eventos_processados s') > 10000"
  shows "exc = Some TypeError \<and> limpar_cache s' = Inl TypeError"
  using tick_limpeza [OF assms(1)] limpar_cache_grande [OF assms(2)] by simp

lemma card_muitos_ids: "card muitos_ids = 10001"
proof -
  have "inj_on (\<lambda>n. ''PC1_'' @ str_of_nat n) {0 .. 10000}"
    by (auto intro!: inj_onI dest: str_of_nat_inj)
  then have "card muitos_ids = card {0 .. 10000 :: nat}"
    unfolding muitos_ids_def by (rule card_image)
  then show ?thesis by simp
qed

theorem limpeza_do_cache_levanta_witness:
  "card muitos_ids = 10001 \<and>
   tick (\<lambda>n. Timeout) [] (monitor_exemplo\<lparr>eventos_processados := muitos_ids\<rparr>, [])
     = ((monitor_exemplo\<lparr>eventos_processados := muitos_ids\<rparr>, []), Some TypeError)"
proof -
  let ?s = "monitor_exemplo\<lparr>eventos_processados := muitos_ids\<rparr>"
  let ?t = "tick (\<lambda>n. Timeout) [] (?s, [])"
  have h1: "?t = ((fst (fst ?t), snd (fst ?t)), snd ?t)" by simp
  from tick_cases [OF h1]
  have st: "fst (fst ?t) = ?s" "snd (fst ?t) = []"
    by (simp_all add: buffer_do_tick_def novos_do_tick_def apos_filtro_def)
  have h2: "card (eventos_processados (fst (fst ?t))) > 10000"
    unfolding st by (simp add: card_muitos_ids)
  from limpeza_do_cache_levanta [OF h1 h2] have "snd ?t = Some TypeError" by simp
  with st have "?t = ((?s, []), Some TypeError)" by (metis h1)
  with card_muitos_ids show ?thesis by simp
qed

end
